theory Spec2Isabelle
  imports Main "HOL-Library.Word"
begin

unbundle bit_operations_syntax

section \<open>The OID registry of crypto/objects/obj\_dat.c\<close>

text \<open>
  A shallow embedding of \<^verbatim>\<open>src/crypto/objects/obj_dat.c\<close>. Every C function of the
  file that the properties below talk about is a HOL function of the same name. Global
  variables (\<^verbatim>\<open>added\<close>, the NID counter, the heap, the error queue) are fields of the
  record \<open>obj_state\<close>, which the functions take and return. The generated built-in
  tables of \<^verbatim>\<open>obj_dat.h\<close> and the services the file calls but does not define are the
  record \<open>env\<close>; whether a lock or an allocation succeeds is the record \<open>services\<close>.
\<close>

subsection \<open>Data model\<close>

type_synonym byte = "8 word"
type_synonym ulong = "64 word"
type_synonym addr = nat

text \<open>
  \<^verbatim>\<open>struct asn1_object_st { sn, ln, nid, length, data, flags }\<close>. A pointer that can be
  \<^verbatim>\<open>NULL\<close> is an \<open>option\<close>. The pair (\<^verbatim>\<open>data\<close>, \<^verbatim>\<open>length\<close>) is the byte list
  \<open>data\<close>: \<^verbatim>\<open>length\<close> is read off it by \<open>olength\<close>, so an object whose \<^verbatim>\<open>length\<close>
  differs from the size of its buffer is not representable.
\<close>

record ASN1_OBJECT =
  sn :: "string option"
  ln :: "string option"
  nid :: int
  data :: "byte list option"
  flags :: int

definition olength :: "ASN1_OBJECT \<Rightarrow> int" where
  "olength a = (case data a of None \<Rightarrow> 0 | Some d \<Rightarrow> int (length d))"

definition NID_undef :: int where "NID_undef = 0"

definition ADDED_DATA :: int where "ADDED_DATA = 0"
definition ADDED_SNAME :: int where "ADDED_SNAME = 1"
definition ADDED_LNAME :: int where "ADDED_LNAME = 2"
definition ADDED_NID :: int where "ADDED_NID = 3"

text \<open>The flag bits of \<^verbatim>\<open>include/openssl/asn1.h\<close>.\<close>

definition ASN1_OBJECT_FLAG_DYNAMIC :: int where "ASN1_OBJECT_FLAG_DYNAMIC = 1"
definition ASN1_OBJECT_FLAG_DYNAMIC_STRINGS :: int where "ASN1_OBJECT_FLAG_DYNAMIC_STRINGS = 4"
definition ASN1_OBJECT_FLAG_DYNAMIC_DATA :: int where "ASN1_OBJECT_FLAG_DYNAMIC_DATA = 8"

definition DYNAMIC_BITS :: int where
  "DYNAMIC_BITS = ASN1_OBJECT_FLAG_DYNAMIC OR ASN1_OBJECT_FLAG_DYNAMIC_STRINGS OR
     ASN1_OBJECT_FLAG_DYNAMIC_DATA"

text \<open>\<^verbatim>\<open>struct added_obj_st { int type; ASN1_OBJECT *obj; }\<close>: a cell of the added index.\<close>

record ADDED_OBJ =
  ao_type :: int
  ao_obj :: addr

text \<open>
  An \<^verbatim>\<open>ASN1_OBJECT *\<close> handed to or returned by the public functions: an entry of the
  static table \<^verbatim>\<open>nid_objs\<close>, an object of the registry's heap, or an object the caller
  owns alone (a fresh allocation that nothing else points to), carried by value.
\<close>

datatype obj_ptr = Static nat | Heap addr | Owned ASN1_OBJECT

datatype err =
    ERR_R_UNABLE_TO_GET_WRITE_LOCK
  | ERR_R_UNABLE_TO_GET_READ_LOCK
  | ERR_R_CRYPTO_LIB
  | ERR_R_ASN1_LIB
  | ERR_R_PASSED_INVALID_ARGUMENT
  | OBJ_R_UNKNOWN_NID
  | OBJ_R_UNKNOWN_OBJECT_NAME
  | OBJ_R_OID_EXISTS

text \<open>
  The mutable state of the file: the two heaps (objects and index cells) with the next
  free address, the static \<^verbatim>\<open>added\<close> (\<open>None\<close> is \<^verbatim>\<open>NULL\<close>), the static \<^verbatim>\<open>new_nid\<close>
  of \<^verbatim>\<open>obj_new_nid_unlocked\<close>, the thread's error queue written by \<^verbatim>\<open>ERR_raise\<close>, and
  the log of the objects and cells given back to the allocator.
\<close>

record obj_state =
  objects :: "addr \<rightharpoonup> ASN1_OBJECT"
  cells :: "addr \<rightharpoonup> ADDED_OBJ"
  brk :: addr
  added :: "addr list option"
  new_nid :: int
  errors :: "err list"
  freed_objects :: "addr list"
  freed_cells :: "addr list"

text \<open>
  The built-in tables of the generated \<^verbatim>\<open>obj_dat.h\<close>, which is not part of this file: \<^verbatim>\<open>nid_objs\<close> (\<^verbatim>\<open>NUM_NID\<close> is its length) and the three sorted index arrays;
  and the ASN.1 text encoder \<^verbatim>\<open>a2d_ASN1_OBJECT\<close>, taken as a parameter: \<open>None\<close> when it
  returns a value \<open>\<le> 0\<close>, else the content octets it writes.
\<close>

record env =
  nid_objs :: "ASN1_OBJECT list"
  sn_objs :: "nat list"
  ln_objs :: "nat list"
  obj_objs :: "nat list"
  a2d_ASN1_OBJECT :: "string \<Rightarrow> byte list option"

definition NUM_NID :: "env \<Rightarrow> int" where
  "NUM_NID e = int (length (nid_objs e))"

text \<open>
  What the surroundings decide: whether the lock can be created and taken, whether each
  allocation succeeds, whether the hash table reports an error on an insert, and whether
  the big-integer service succeeds (every \<^verbatim>\<open>BN_*\<close> call fails exactly when \<open>bn_ok\<close> is
  false).
\<close>

record services =
  lock_ok :: bool
  dup_ok :: bool
  cell_ok :: "int \<Rightarrow> bool"
  lh_new_ok :: bool
  insert_ok :: "int \<Rightarrow> bool"
  malloc_ok :: bool
  d2i_ok :: bool
  bn_ok :: bool

definition ERR_raise :: "err \<Rightarrow> obj_state \<Rightarrow> obj_state" where
  "ERR_raise e s = s\<lparr>errors := errors s @ [e]\<rparr>"

subsection \<open>C strings and byte buffers\<close>

text \<open>\<^verbatim>\<open>strcmp\<close> and \<^verbatim>\<open>memcmp\<close>: only the sign of the result is specified by C.\<close>

fun strcmp :: "string \<Rightarrow> string \<Rightarrow> int" where
  "strcmp [] [] = 0"
| "strcmp [] (y # ys) = -1"
| "strcmp (x # xs) [] = 1"
| "strcmp (x # xs) (y # ys) =
     (if x = y then strcmp xs ys
      else if (of_char x :: nat) < of_char y then -1 else 1)"

fun memcmp :: "byte list \<Rightarrow> byte list \<Rightarrow> nat \<Rightarrow> int" where
  "memcmp xs ys 0 = 0"
| "memcmp (x # xs) (y # ys) (Suc n) =
     (if x = y then memcmp xs ys n else if x < y then -1 else 1)"
| "memcmp xs ys (Suc n) = 0"

definition bytes_of :: "byte list option \<Rightarrow> byte list" where
  "bytes_of d = (case d of None \<Rightarrow> [] | Some b \<Rightarrow> b)"

text \<open>The ASCII classes of \<^verbatim>\<open>crypto/ctype.c\<close>.\<close>

definition ossl_isdigit :: "char \<Rightarrow> bool" where
  "ossl_isdigit c = (48 \<le> (of_char c :: nat) \<and> (of_char c :: nat) \<le> 57)"

definition ossl_isalnum :: "char \<Rightarrow> bool" where
  "ossl_isalnum c = (ossl_isdigit c
     \<or> (65 \<le> (of_char c :: nat) \<and> (of_char c :: nat) \<le> 90)
     \<or> (97 \<le> (of_char c :: nat) \<and> (of_char c :: nat) \<le> 122))"

definition ossl_isspace :: "char \<Rightarrow> bool" where
  "ossl_isspace c = ((of_char c :: nat) = 32 \<or> (9 \<le> (of_char c :: nat) \<and> (of_char c :: nat) \<le> 13))"

definition NUL :: char where "NUL = CHR 0x00"

subsection \<open>The built-in tables\<close>

text \<open>
  Modelled from the spec: \<^verbatim>\<open>ossl_bsearch\<close>, which \<^verbatim>\<open>OBJ_bsearch_\<close> calls with flags 0, is
  not part of this file. The spec has the built-in lookups as binary
  searches with the comparators of this file: the search halves \<open>[l, h)\<close> and returns
  the position of an element that compares equal, or \<open>None\<close>.
\<close>

function ossl_bsearch :: "(nat \<Rightarrow> int) \<Rightarrow> nat list \<Rightarrow> nat \<Rightarrow> nat \<Rightarrow> nat option" where
  "ossl_bsearch cmp base l h =
     (if l < h then
        (let i = (l + h) div 2; c = cmp (base ! i) in
         if c < 0 then ossl_bsearch cmp base l i
         else if c > 0 then ossl_bsearch cmp base (i + 1) h
         else Some i)
      else None)"
  by pat_completeness auto
termination
  by (relation "measure (\<lambda>(cmp, base, l, h). h - l)") auto

declare ossl_bsearch.simps [simp del]

text \<open>
  \<^verbatim>\<open>sn_cmp\<close>, \<^verbatim>\<open>ln_cmp\<close>, \<^verbatim>\<open>obj_cmp\<close>: the key against the table entry
  \<^verbatim>\<open>nid_objs[*b]\<close>. The generated index arrays name only entries that have the name
  compared; an entry without it is compared as the empty string.
\<close>

definition name_of :: "string option \<Rightarrow> string" where
  "name_of x = (case x of None \<Rightarrow> [] | Some s \<Rightarrow> s)"

definition sn_cmp :: "env \<Rightarrow> string \<Rightarrow> nat \<Rightarrow> int" where
  "sn_cmp e a b = strcmp a (name_of (sn (nid_objs e ! b)))"

definition ln_cmp :: "env \<Rightarrow> string \<Rightarrow> nat \<Rightarrow> int" where
  "ln_cmp e a b = strcmp a (name_of (ln (nid_objs e ! b)))"

definition obj_cmp :: "env \<Rightarrow> ASN1_OBJECT \<Rightarrow> nat \<Rightarrow> int" where
  "obj_cmp e a bp =
     (let b = nid_objs e ! bp; j = olength a - olength b in
      if j \<noteq> 0 then j
      else if olength a = 0 then 0
      else memcmp (bytes_of (data a)) (bytes_of (data b)) (nat (olength a)))"

definition OBJ_bsearch_sn :: "env \<Rightarrow> string \<Rightarrow> nat option" where
  "OBJ_bsearch_sn e s = ossl_bsearch (sn_cmp e s) (sn_objs e) 0 (length (sn_objs e))"

definition OBJ_bsearch_ln :: "env \<Rightarrow> string \<Rightarrow> nat option" where
  "OBJ_bsearch_ln e s = ossl_bsearch (ln_cmp e s) (ln_objs e) 0 (length (ln_objs e))"

definition OBJ_bsearch_obj :: "env \<Rightarrow> ASN1_OBJECT \<Rightarrow> nat option" where
  "OBJ_bsearch_obj e a = ossl_bsearch (obj_cmp e a) (obj_objs e) 0 (length (obj_objs e))"


subsection \<open>The added index\<close>

text \<open>
  \<^verbatim>\<open>added_obj_cmp\<close>, on two cells with their objects read: the tag first, then the
  field the tag names.
\<close>

definition added_obj_cmp :: "int \<times> ASN1_OBJECT \<Rightarrow> int \<times> ASN1_OBJECT \<Rightarrow> int" where
  "added_obj_cmp ca cb =
     (let i = fst ca - fst cb; a = snd ca; b = snd cb in
      if i \<noteq> 0 then i
      else if fst ca = ADDED_DATA then
        (let i = olength a - olength b in
         if i \<noteq> 0 then i
         else memcmp (bytes_of (data a)) (bytes_of (data b)) (nat (olength a)))
      else if fst ca = ADDED_SNAME then
        (case sn a of None \<Rightarrow> -1
         | Some x \<Rightarrow> (case sn b of None \<Rightarrow> 1 | Some y \<Rightarrow> strcmp x y))
      else if fst ca = ADDED_LNAME then
        (case ln a of None \<Rightarrow> -1
         | Some x \<Rightarrow> (case ln b of None \<Rightarrow> 1 | Some y \<Rightarrow> strcmp x y))
      else if fst ca = ADDED_NID then nid a - nid b
      else 0)"

text \<open>\<^verbatim>\<open>adp->obj\<close> and \<^verbatim>\<open>*adp->obj\<close> for a cell pointer \<^verbatim>\<open>adp\<close>.\<close>

definition obj_of_cell :: "obj_state \<Rightarrow> addr \<Rightarrow> (addr \<times> ASN1_OBJECT) option" where
  "obj_of_cell s p =
     (case cells s p of None \<Rightarrow> None
      | Some c \<Rightarrow> (case objects s (ao_obj c) of None \<Rightarrow> None | Some ob \<Rightarrow> Some (ao_obj c, ob)))"

definition key_of_cell :: "obj_state \<Rightarrow> addr \<Rightarrow> (int \<times> ASN1_OBJECT) option" where
  "key_of_cell s p =
     (case cells s p of None \<Rightarrow> None
      | Some c \<Rightarrow> (case objects s (ao_obj c) of None \<Rightarrow> None | Some ob \<Rightarrow> Some (ao_type c, ob)))"

definition matches :: "obj_state \<Rightarrow> int \<times> ASN1_OBJECT \<Rightarrow> addr \<Rightarrow> bool" where
  "matches s k p = (case key_of_cell s p of None \<Rightarrow> False | Some c \<Rightarrow> added_obj_cmp c k = 0)"

text \<open>
  Modelled from the spec: the hash table \<^verbatim>\<open>LHASH_OF(ADDED_OBJ)\<close> of
  \<^verbatim>\<open>crypto/lhash\<close> is not part of this file. The spec has it as one associative
  container with \<open>retrieve(key) \<rightarrow> record?\<close>, \<open>insert(record)\<close> (returns the prior
  record if any), \<open>delete(key)\<close> and \<open>for_each(visitor)\<close>, whose equality function is
  \<^verbatim>\<open>added_obj_cmp\<close>. The table is the list of the cells it holds; a key finds the first
  cell that \<^verbatim>\<open>added_obj_cmp\<close> calls equal (the hash \<^verbatim>\<open>added_obj_hash\<close> is a function of
  the fields that the comparison reads, so it never separates equal keys). An insert
  that the container cannot complete leaves the table as it is and sets the error
  flag that \<^verbatim>\<open>lh_ADDED_OBJ_error\<close> reads.
\<close>

definition lh_ADDED_OBJ_retrieve :: "obj_state \<Rightarrow> addr list \<Rightarrow> int \<times> ASN1_OBJECT \<Rightarrow> addr option" where
  "lh_ADDED_OBJ_retrieve s tab k = find (matches s k) tab"

fun lh_put :: "obj_state \<Rightarrow> int \<times> ASN1_OBJECT \<Rightarrow> addr \<Rightarrow> addr list \<Rightarrow> addr list" where
  "lh_put s k c [] = [c]"
| "lh_put s k c (p # ps) = (if matches s k p then c # ps else p # lh_put s k c ps)"

definition lh_ADDED_OBJ_insert ::
    "bool \<Rightarrow> obj_state \<Rightarrow> addr list \<Rightarrow> int \<times> ASN1_OBJECT \<Rightarrow> addr \<Rightarrow> addr list \<times> bool" where
  "lh_ADDED_OBJ_insert ok s tab k c = (if ok then (lh_put s k c tab, False) else (tab, True))"

fun lh_ADDED_OBJ_delete :: "obj_state \<Rightarrow> addr list \<Rightarrow> int \<times> ASN1_OBJECT \<Rightarrow> addr list" where
  "lh_ADDED_OBJ_delete s [] k = []"
| "lh_ADDED_OBJ_delete s (p # ps) k =
     (if matches s k p then ps else p # lh_ADDED_OBJ_delete s ps k)"

datatype fault = NULL_DEREFERENCE | USE_AFTER_FREE

fun lh_ADDED_OBJ_doall ::
    "(addr \<Rightarrow> obj_state \<Rightarrow> fault + obj_state) \<Rightarrow> addr list \<Rightarrow> obj_state \<Rightarrow> fault + obj_state" where
  "lh_ADDED_OBJ_doall f [] s = Inr s"
| "lh_ADDED_OBJ_doall f (a # as) s =
     (case f a s of Inl x \<Rightarrow> Inl x | Inr s' \<Rightarrow> lh_ADDED_OBJ_doall f as s')"

subsection \<open>Locks\<close>

text \<open>
  \<^verbatim>\<open>ossl_obj_write_lock\<close>, \<^verbatim>\<open>ossl_obj_read_lock\<close>: with \<^verbatim>\<open>lock == 0\<close> nothing is taken;
  otherwise the run-once initialisation and the lock call decide.
\<close>

definition ossl_obj_write_lock :: "services \<Rightarrow> bool \<Rightarrow> bool" where
  "ossl_obj_write_lock sv lock = (if \<not> lock then True else lock_ok sv)"

definition ossl_obj_read_lock :: "services \<Rightarrow> bool \<Rightarrow> bool" where
  "ossl_obj_read_lock sv lock = (if \<not> lock then True else lock_ok sv)"

subsection \<open>Lookups\<close>

text \<open>
  A probe object on the stack has only the compared field assigned; \<open>probe\<close> is that
  object with the fields the comparison never reads left blank.
\<close>

definition probe :: ASN1_OBJECT where
  "probe = \<lparr>sn = None, ln = None, nid = 0, data = None, flags = 0\<rparr>"

definition OBJ_nid2obj :: "env \<Rightarrow> services \<Rightarrow> obj_state \<Rightarrow> int \<Rightarrow> obj_ptr option \<times> obj_state" where
  "OBJ_nid2obj e sv s n =
     (if n = NID_undef \<or> (n > 0 \<and> n < NUM_NID e \<and> nid (nid_objs e ! nat n) \<noteq> NID_undef)
      then (Some (Static (nat n)), s)
      else if \<not> ossl_obj_read_lock sv True
      then (None, ERR_raise ERR_R_UNABLE_TO_GET_READ_LOCK s)
      else
        (let adp = (case added s of None \<Rightarrow> None
                    | Some tab \<Rightarrow> lh_ADDED_OBJ_retrieve s tab (ADDED_NID, probe\<lparr>nid := n\<rparr>)) in
         case Option.bind adp (obj_of_cell s) of
           Some (p, ob) \<Rightarrow> (Some (Heap p), s)
         | None \<Rightarrow> (None, ERR_raise OBJ_R_UNKNOWN_NID s)))"

text \<open>Reading through an \<^verbatim>\<open>ASN1_OBJECT *\<close>.\<close>

definition deref :: "env \<Rightarrow> obj_state \<Rightarrow> obj_ptr \<Rightarrow> ASN1_OBJECT option" where
  "deref e s p =
     (case p of
        Static n \<Rightarrow> (if n < length (nid_objs e) then Some (nid_objs e ! n) else None)
      | Heap a \<Rightarrow> objects s a
      | Owned ob \<Rightarrow> Some ob)"

definition OBJ_nid2sn :: "env \<Rightarrow> services \<Rightarrow> obj_state \<Rightarrow> int \<Rightarrow> string option \<times> obj_state" where
  "OBJ_nid2sn e sv s n =
     (case OBJ_nid2obj e sv s n of
        (None, s') \<Rightarrow> (None, s')
      | (Some p, s') \<Rightarrow> (Option.bind (deref e s' p) sn, s'))"

definition OBJ_nid2ln :: "env \<Rightarrow> services \<Rightarrow> obj_state \<Rightarrow> int \<Rightarrow> string option \<times> obj_state" where
  "OBJ_nid2ln e sv s n =
     (case OBJ_nid2obj e sv s n of
        (None, s') \<Rightarrow> (None, s')
      | (Some p, s') \<Rightarrow> (Option.bind (deref e s' p) ln, s'))"

definition ossl_obj_obj2nid ::
    "env \<Rightarrow> services \<Rightarrow> obj_state \<Rightarrow> ASN1_OBJECT option \<Rightarrow> bool \<Rightarrow> int \<times> obj_state" where
  "ossl_obj_obj2nid e sv s a lock =
     (case a of
        None \<Rightarrow> (NID_undef, s)
      | Some a \<Rightarrow>
          if nid a \<noteq> NID_undef then (nid a, s)
          else if olength a = 0 then (NID_undef, s)
          else
            (case OBJ_bsearch_obj e a of
               Some op \<Rightarrow> (nid (nid_objs e ! (obj_objs e ! op)), s)
             | None \<Rightarrow>
                 if \<not> ossl_obj_read_lock sv lock
                 then (NID_undef, ERR_raise ERR_R_UNABLE_TO_GET_READ_LOCK s)
                 else
                   (case added s of
                      None \<Rightarrow> (NID_undef, s)
                    | Some tab \<Rightarrow>
                        (case Option.bind (lh_ADDED_OBJ_retrieve s tab (ADDED_DATA, a)) (obj_of_cell s) of
                           Some (p, ob) \<Rightarrow> (nid ob, s)
                         | None \<Rightarrow> (NID_undef, s)))))"

definition OBJ_obj2nid :: "env \<Rightarrow> services \<Rightarrow> obj_state \<Rightarrow> ASN1_OBJECT option \<Rightarrow> int \<times> obj_state" where
  "OBJ_obj2nid e sv s a = ossl_obj_obj2nid e sv s a True"

definition OBJ_ln2nid :: "env \<Rightarrow> services \<Rightarrow> obj_state \<Rightarrow> string \<Rightarrow> int \<times> obj_state" where
  "OBJ_ln2nid e sv s str =
     (case OBJ_bsearch_ln e str of
        Some op \<Rightarrow> (nid (nid_objs e ! (ln_objs e ! op)), s)
      | None \<Rightarrow>
          if \<not> ossl_obj_read_lock sv True
          then (NID_undef, ERR_raise ERR_R_UNABLE_TO_GET_READ_LOCK s)
          else
            (case added s of
               None \<Rightarrow> (NID_undef, s)
             | Some tab \<Rightarrow>
                 (case Option.bind (lh_ADDED_OBJ_retrieve s tab (ADDED_LNAME, probe\<lparr>ln := Some str\<rparr>))
                         (obj_of_cell s) of
                    Some (p, ob) \<Rightarrow> (nid ob, s)
                  | None \<Rightarrow> (NID_undef, s))))"

definition OBJ_sn2nid :: "env \<Rightarrow> services \<Rightarrow> obj_state \<Rightarrow> string \<Rightarrow> int \<times> obj_state" where
  "OBJ_sn2nid e sv s str =
     (case OBJ_bsearch_sn e str of
        Some op \<Rightarrow> (nid (nid_objs e ! (sn_objs e ! op)), s)
      | None \<Rightarrow>
          if \<not> ossl_obj_read_lock sv True
          then (NID_undef, ERR_raise ERR_R_UNABLE_TO_GET_READ_LOCK s)
          else
            (case added s of
               None \<Rightarrow> (NID_undef, s)
             | Some tab \<Rightarrow>
                 (case Option.bind (lh_ADDED_OBJ_retrieve s tab (ADDED_SNAME, probe\<lparr>sn := Some str\<rparr>))
                         (obj_of_cell s) of
                    Some (p, ob) \<Rightarrow> (nid ob, s)
                  | None \<Rightarrow> (NID_undef, s))))"


subsection \<open>Teardown\<close>

text \<open>
  Modelled from the spec: \<^verbatim>\<open>ASN1_OBJECT_free\<close> and \<^verbatim>\<open>OPENSSL_free\<close> are not part of
  this file. The spec has the entry freed "including any owned buffers per its flags":
  an object whose \<^verbatim>\<open>ASN1_OBJECT_FLAG_DYNAMIC\<close> bit is set leaves the heap, and each
  release is written to the log (a second release of the same address shows there as
  a second entry).
\<close>

definition ASN1_OBJECT_free :: "addr \<Rightarrow> obj_state \<Rightarrow> obj_state" where
  "ASN1_OBJECT_free p s =
     (case objects s p of
        None \<Rightarrow> s\<lparr>freed_objects := freed_objects s @ [p]\<rparr>
      | Some ob \<Rightarrow>
          if flags ob AND ASN1_OBJECT_FLAG_DYNAMIC \<noteq> 0
          then s\<lparr>objects := (objects s)(p := None), freed_objects := freed_objects s @ [p]\<rparr>
          else s)"

definition OPENSSL_free :: "addr option \<Rightarrow> obj_state \<Rightarrow> obj_state" where
  "OPENSSL_free a s =
     (case a of
        None \<Rightarrow> s
      | Some p \<Rightarrow> s\<lparr>cells := (cells s)(p := None), freed_cells := freed_cells s @ [p]\<rparr>)"

definition cleanup1_doall :: "addr \<Rightarrow> obj_state \<Rightarrow> fault + obj_state" where
  "cleanup1_doall a s =
     (case obj_of_cell s a of
        None \<Rightarrow> Inl USE_AFTER_FREE
      | Some (p, ob) \<Rightarrow>
          Inr (s\<lparr>objects := (objects s)(p \<mapsto> ob\<lparr>nid := 0, flags := flags ob OR DYNAMIC_BITS\<rparr>)\<rparr>))"

definition cleanup2_doall :: "addr \<Rightarrow> obj_state \<Rightarrow> fault + obj_state" where
  "cleanup2_doall a s =
     (case obj_of_cell s a of
        None \<Rightarrow> Inl USE_AFTER_FREE
      | Some (p, ob) \<Rightarrow> Inr (s\<lparr>objects := (objects s)(p \<mapsto> ob\<lparr>nid := nid ob + 1\<rparr>)\<rparr>))"

definition cleanup3_doall :: "addr \<Rightarrow> obj_state \<Rightarrow> fault + obj_state" where
  "cleanup3_doall a s =
     (case obj_of_cell s a of
        None \<Rightarrow> Inl USE_AFTER_FREE
      | Some (p, ob) \<Rightarrow>
          (let s1 = s\<lparr>objects := (objects s)(p \<mapsto> ob\<lparr>nid := nid ob - 1\<rparr>)\<rparr>;
               s2 = (if nid ob - 1 = 0 then ASN1_OBJECT_free p s1 else s1)
           in Inr (OPENSSL_free (Some a) s2)))"

text \<open>
  \<^verbatim>\<open>ossl_obj_cleanup_int\<close>: the three passes over the table, then the table itself is
  freed and \<^verbatim>\<open>added\<close> reset.
\<close>

definition ossl_obj_cleanup_int :: "obj_state \<Rightarrow> fault + obj_state" where
  "ossl_obj_cleanup_int s =
     (case added s of
        None \<Rightarrow> Inr s
      | Some tab \<Rightarrow>
          (case lh_ADDED_OBJ_doall cleanup1_doall tab s of
             Inl x \<Rightarrow> Inl x
           | Inr s1 \<Rightarrow>
               (case lh_ADDED_OBJ_doall cleanup2_doall tab s1 of
                  Inl x \<Rightarrow> Inl x
                | Inr s2 \<Rightarrow>
                    (case lh_ADDED_OBJ_doall cleanup3_doall tab s2 of
                       Inl x \<Rightarrow> Inl x
                     | Inr s3 \<Rightarrow> Inr (s3\<lparr>added := None\<rparr>)))))"

subsection \<open>The NID allocator\<close>

text \<open>\<^verbatim>\<open>obj_new_nid_unlocked\<close> (the \<^verbatim>\<open>tsan_add\<close> branch: the old value is returned).\<close>

definition obj_new_nid_unlocked :: "int \<Rightarrow> obj_state \<Rightarrow> int \<times> obj_state" where
  "obj_new_nid_unlocked num s = (new_nid s, s\<lparr>new_nid := new_nid s + num\<rparr>)"

definition OBJ_new_nid :: "int \<Rightarrow> obj_state \<Rightarrow> int \<times> obj_state" where
  "OBJ_new_nid num s = obj_new_nid_unlocked num s"

subsection \<open>Adding an object to the index\<close>

text \<open>
  Modelled from the spec: \<^verbatim>\<open>OBJ_dup\<close> is not part of this file. The spec has the
  registration "materialize an owned \<open>OidEntry\<close>" whose ownership flags are cleared on
  success: the copy is a new object of the heap with the three dynamic flags set, or
  \<^verbatim>\<open>NULL\<close> when the allocation fails.
\<close>

definition OBJ_dup :: "services \<Rightarrow> obj_state \<Rightarrow> ASN1_OBJECT \<Rightarrow> (addr \<times> obj_state) option" where
  "OBJ_dup sv s ob =
     (if dup_ok sv
      then Some (brk s, s\<lparr>objects := (objects s)(brk s \<mapsto> ob\<lparr>flags := flags ob OR DYNAMIC_BITS\<rparr>),
                           brk := Suc (brk s)\<rparr>)
      else None)"

text \<open>
  The chain of \<^verbatim>\<open>OPENSSL_malloc(sizeof(*ao[0]))\<close> calls joined by \<^verbatim>\<open>||\<close>: the cells are
  allocated in the order given, a cell that is not wanted is skipped, and the first
  failure ends the chain. A new cell holds no meaningful type or object yet.
\<close>

fun alloc_cells ::
    "services \<Rightarrow> (int \<times> bool) list \<Rightarrow> (int \<Rightarrow> addr option) \<Rightarrow> obj_state
       \<Rightarrow> bool \<times> (int \<Rightarrow> addr option) \<times> obj_state" where
  "alloc_cells sv [] ao s = (True, ao, s)"
| "alloc_cells sv ((i, wanted) # rest) ao s =
     (if \<not> wanted then alloc_cells sv rest ao s
      else if \<not> cell_ok sv i then (False, ao, s)
      else alloc_cells sv rest (ao(i := Some (brk s)))
             (s\<lparr>cells := (cells s)(brk s \<mapsto> \<lparr>ao_type = 0, ao_obj = 0\<rparr>), brk := Suc (brk s)\<rparr>))"

definition set_type :: "addr option \<Rightarrow> int \<Rightarrow> obj_state \<Rightarrow> obj_state" where
  "set_type a t s =
     (case a of
        None \<Rightarrow> s
      | Some q \<Rightarrow>
          (case cells s q of
             None \<Rightarrow> s
           | Some c \<Rightarrow> s\<lparr>cells := (cells s)(q \<mapsto> c\<lparr>ao_type := t\<rparr>)\<rparr>))"

definition the_table :: "obj_state \<Rightarrow> addr list" where
  "the_table s = (case added s of None \<Rightarrow> [] | Some tab \<Rightarrow> tab)"

text \<open>
  The roll-back loop \<^verbatim>\<open>while (i-- > ADDED_DATA)\<close> of lines 304 to 308. It visits every
  index below \<open>i\<close>, also one whose cell \<^verbatim>\<open>ao[i]\<close> was never allocated: there
  \<^verbatim>\<open>lh_ADDED_OBJ_delete(added, ao[i])\<close> hands \<^verbatim>\<open>NULL\<close> to \<^verbatim>\<open>added_obj_hash\<close>, which
  reads \<^verbatim>\<open>ca->obj\<close>.
\<close>

function rollback ::
    "(int \<Rightarrow> addr option) \<Rightarrow> (int \<Rightarrow> addr option) \<Rightarrow> int \<Rightarrow> obj_state \<Rightarrow> fault + obj_state" where
  "rollback ao aop i s =
     (if i > ADDED_DATA then
        (let j = i - 1 in
         case ao j of
           None \<Rightarrow> Inl NULL_DEREFERENCE
         | Some c \<Rightarrow>
             (case key_of_cell s c of
                None \<Rightarrow> Inl USE_AFTER_FREE
              | Some k \<Rightarrow>
                  rollback ao aop j
                    (set_type (aop j) j (s\<lparr>added := Some (lh_ADDED_OBJ_delete s (the_table s) k)\<rparr>))))
      else Inr s)"
  by pat_completeness auto
termination
  by (relation "measure (\<lambda>(ao, aop, i, s). nat i)") (auto simp: ADDED_DATA_def)

declare rollback.simps [simp del]

text \<open>
  The loop \<^verbatim>\<open>for (i = ADDED_DATA; i <= ADDED_NID; i++)\<close> of lines 293 to 313. The result
  is \<open>True\<close> when all cells are in the table, \<open>False\<close> after \<^verbatim>\<open>goto err\<close>.
\<close>

function insert_loop ::
    "services \<Rightarrow> (int \<Rightarrow> addr option) \<Rightarrow> (int \<Rightarrow> addr option) \<Rightarrow> addr \<Rightarrow> int \<Rightarrow> obj_state
       \<Rightarrow> fault + (bool \<times> obj_state)" where
  "insert_loop sv ao aop ob i s =
     (if i \<le> ADDED_NID then
        (case ao i of
           None \<Rightarrow> insert_loop sv ao aop ob (i + 1) s
         | Some c \<Rightarrow>
             (let s1 = s\<lparr>cells := (cells s)(c \<mapsto> \<lparr>ao_type = i, ao_obj = ob\<rparr>)\<rparr> in
              case key_of_cell s1 c of
                None \<Rightarrow> Inl USE_AFTER_FREE
              | Some k \<Rightarrow>
                  (let prev = lh_ADDED_OBJ_retrieve s1 (the_table s1) k;
                       s2 = set_type prev (-1) s1;
                       (tab, error) = lh_ADDED_OBJ_insert (insert_ok sv i) s2 (the_table s2) k c;
                       s3 = s2\<lparr>added := Some tab\<rparr>
                   in if error then
                        (case rollback ao (aop(i := prev)) i (set_type prev i s3) of
                           Inl x \<Rightarrow> Inl x
                         | Inr s4 \<Rightarrow> Inr (False, ERR_raise ERR_R_CRYPTO_LIB s4))
                      else insert_loop sv ao (aop(i := prev)) ob (i + 1) s3)))
      else Inr (True, s))"
  by pat_completeness auto
termination
  by (relation "measure (\<lambda>(sv, ao, aop, ob, i, s). nat (4 - i))") (auto simp: ADDED_NID_def)

declare insert_loop.simps [simp del]

text \<open>The exit \<^verbatim>\<open>err2\<close>: every cell and the copy are freed, \<^verbatim>\<open>NID_undef\<close> is returned.\<close>

definition err2 :: "(int \<Rightarrow> addr option) \<Rightarrow> addr \<Rightarrow> obj_state \<Rightarrow> int \<times> obj_state" where
  "err2 ao ob s =
     (NID_undef,
      ASN1_OBJECT_free ob
        (OPENSSL_free (ao ADDED_NID)
          (OPENSSL_free (ao ADDED_LNAME)
            (OPENSSL_free (ao ADDED_SNAME)
              (OPENSSL_free (ao ADDED_DATA) s)))))"

text \<open>
  The cells that lines 271 to 278 allocate, in that order: the NID cell always, the
  data cell when \<^verbatim>\<open>o->length != 0 && obj->data != NULL\<close>, the name cells when the name
  is there.
\<close>

definition wanted_cells :: "ASN1_OBJECT \<Rightarrow> (int \<times> bool) list" where
  "wanted_cells obj =
     [(ADDED_NID, True),
      (ADDED_DATA, olength obj \<noteq> 0 \<and> data obj \<noteq> None),
      (ADDED_SNAME, sn obj \<noteq> None),
      (ADDED_LNAME, ln obj \<noteq> None)]"

definition ossl_obj_add_object ::
    "services \<Rightarrow> obj_state \<Rightarrow> ASN1_OBJECT \<Rightarrow> bool \<Rightarrow> fault + (int \<times> obj_state)" where
  "ossl_obj_add_object sv s obj lock =
     (case OBJ_dup sv s obj of
        None \<Rightarrow> Inr (NID_undef, s)
      | Some (ob, s1) \<Rightarrow>
          (let (ok, ao, s2) = alloc_cells sv (wanted_cells obj) (\<lambda>i. None) s1
           in if \<not> ok then Inr (err2 ao ob s2)
              else if \<not> ossl_obj_write_lock sv lock
              then Inr (err2 ao ob (ERR_raise ERR_R_UNABLE_TO_GET_WRITE_LOCK s2))
              else if added s2 = None \<and> \<not> lh_new_ok sv
              then Inr (err2 ao ob (ERR_raise ERR_R_CRYPTO_LIB s2))
              else
                (case insert_loop sv ao (\<lambda>i. None) ob ADDED_DATA (s2\<lparr>added := Some (the_table s2)\<rparr>) of
                   Inl x \<Rightarrow> Inl x
                 | Inr (False, s3) \<Rightarrow> Inr (err2 ao ob s3)
                 | Inr (True, s3) \<Rightarrow>
                     (case objects s3 ob of
                        None \<Rightarrow> Inl USE_AFTER_FREE
                      | Some v \<Rightarrow>
                          Inr (nid v,
                               s3\<lparr>objects := (objects s3)(ob \<mapsto> v\<lparr>flags := flags v AND NOT DYNAMIC_BITS\<rparr>)\<rparr>)))))"

definition OBJ_add_object :: "services \<Rightarrow> obj_state \<Rightarrow> ASN1_OBJECT \<Rightarrow> fault + (int \<times> obj_state)" where
  "OBJ_add_object sv s obj = ossl_obj_add_object sv s obj True"


subsection \<open>Text to object\<close>

text \<open>
  Modelled from the spec: \<^verbatim>\<open>ASN1_object_size\<close>, \<^verbatim>\<open>ASN1_put_object\<close> and
  \<^verbatim>\<open>d2i_ASN1_OBJECT\<close> (the tag and length framing) are not part of this file. The spec
  has \<open>text_to_obj\<close> "invoke \<open>Codec.text_to_der\<close> and wrap the result": the size is one
  tag octet, the DER length octets and the content, negative when it does not fit an
  \<^verbatim>\<open>int\<close>; the header written in front of the content octets is read back by the
  decoder, which builds a new object around them (or fails to allocate it).
\<close>

definition ASN1_object_size :: "int \<Rightarrow> int" where
  "ASN1_object_size len =
     (if len < 0 then -1
      else
        (let ret = 2 + (if len > 127 then int (length (takeWhile (\<lambda>k. drop_bit (8 * k) len > 0) [0..<4])) else 0)
         in if ret \<ge> 2147483647 - len then -1 else ret + len))"

definition d2i_ASN1_OBJECT :: "services \<Rightarrow> byte list \<Rightarrow> ASN1_OBJECT option" where
  "d2i_ASN1_OBJECT sv content =
     (if d2i_ok sv
      then Some \<lparr>sn = None, ln = None, nid = NID_undef, data = Some content, flags = DYNAMIC_BITS\<rparr>
      else None)"

text \<open>Lines 443 to 465 of \<^verbatim>\<open>OBJ_txt2obj\<close>: the dotted form is encoded and wrapped.\<close>

definition txt2obj_dotted :: "env \<Rightarrow> services \<Rightarrow> string \<Rightarrow> ASN1_OBJECT option" where
  "txt2obj_dotted e sv str =
     (let i = (case a2d_ASN1_OBJECT e str of None \<Rightarrow> 0 | Some d \<Rightarrow> int (length d)) in
      if i \<le> 0 then None
      else if ASN1_object_size i < 0 then None
      else if \<not> malloc_ok sv then None
      else d2i_ASN1_OBJECT sv (bytes_of (a2d_ASN1_OBJECT e str)))"

text \<open>\<^verbatim>\<open>*s\<close> for a C string: its first character, or the terminator.\<close>

definition first_char :: "string \<Rightarrow> char" where
  "first_char str = (case str of [] \<Rightarrow> NUL | c # cs \<Rightarrow> c)"

definition OBJ_txt2obj ::
    "env \<Rightarrow> services \<Rightarrow> obj_state \<Rightarrow> string \<Rightarrow> bool \<Rightarrow> obj_ptr option \<times> obj_state" where
  "OBJ_txt2obj e sv s str no_name =
     (if \<not> no_name then
        (let (n1, s1) = OBJ_sn2nid e sv s str in
         if n1 \<noteq> NID_undef then OBJ_nid2obj e sv s1 n1
         else
           (let (n2, s2) = OBJ_ln2nid e sv s1 str in
            if n2 \<noteq> NID_undef then OBJ_nid2obj e sv s2 n2
            else if \<not> ossl_isdigit (first_char str)
            then (None, ERR_raise OBJ_R_UNKNOWN_OBJECT_NAME s2)
            else (map_option Owned (txt2obj_dotted e sv str), s2)))
      else (map_option Owned (txt2obj_dotted e sv str), s))"

definition OBJ_txt2nid :: "env \<Rightarrow> services \<Rightarrow> obj_state \<Rightarrow> string \<Rightarrow> int \<times> obj_state" where
  "OBJ_txt2nid e sv s str =
     (case OBJ_txt2obj e sv s str False of
        (None, s1) \<Rightarrow> (NID_undef, s1)
      | (Some p, s1) \<Rightarrow> OBJ_obj2nid e sv s1 (deref e s1 p))"

subsection \<open>Object to text\<close>

text \<open>
  The caller's buffer is the memory around \<^verbatim>\<open>buf\<close>, a function from offsets (relative
  to the pointer passed in) to characters, so that a write outside the capacity is a
  visible change of the memory. The running state of \<^verbatim>\<open>OBJ_obj2txt\<close>: the memory,
  whether \<^verbatim>\<open>buf\<close> is \<^verbatim>\<open>NULL\<close>, the offset of \<^verbatim>\<open>buf\<close>, \<^verbatim>\<open>buf_len\<close> and \<^verbatim>\<open>n\<close>.
\<close>

record out =
  o_mem :: "int \<Rightarrow> char"
  o_null :: bool
  o_pos :: int
  o_len :: int
  o_n :: int

definition size_t :: "int \<Rightarrow> nat" where
  "size_t x = nat (x mod 2 ^ 64)"

text \<open>
  Modelled from the spec: \<^verbatim>\<open>OPENSSL_strlcpy\<close> (of \<^verbatim>\<open>crypto/o_str.c\<close>) is not part of
  this file. The spec has the text written into a buffer of a given capacity, cut when
  it does not fit and "null-terminated when capacity permits": at most \<open>size - 1\<close>
  characters are copied, and the terminator is written after them when \<open>size\<close> is not 0.
\<close>

fun OPENSSL_strlcpy :: "(int \<Rightarrow> char) \<Rightarrow> int \<Rightarrow> string \<Rightarrow> nat \<Rightarrow> (int \<Rightarrow> char)" where
  "OPENSSL_strlcpy m dst [] sz = (if sz \<noteq> 0 then m(dst := NUL) else m)"
| "OPENSSL_strlcpy m dst (c # cs) sz =
     (if sz > 1 then OPENSSL_strlcpy (m(dst := c)) (dst + 1) cs (sz - 1)
      else if sz \<noteq> 0 then m(dst := NUL)
      else m)"

text \<open>
  Modelled from the spec: \<^verbatim>\<open>BIO_snprintf\<close> and the \<^verbatim>\<open>BIGNUM\<close> library (\<^verbatim>\<open>BN_set_word\<close>,
  \<^verbatim>\<open>BN_add_word\<close>, \<^verbatim>\<open>BN_lshift\<close>, \<^verbatim>\<open>BN_sub_word\<close>, \<^verbatim>\<open>BN_bn2dec\<close>) are not part of
  this file. The spec has the arcs emitted in decimal and the accumulator promoted "to
  arbitrary precision": a \<^verbatim>\<open>BIGNUM\<close> is an integer, its operations are those of the
  integers (each may fail, which \<open>bn_ok\<close> decides), and \<^verbatim>\<open>%lu\<close> and \<^verbatim>\<open>BN_bn2dec\<close> print
  the decimal digits without leading zeros.
\<close>

definition digit :: "nat \<Rightarrow> char" where
  "digit k = char_of (48 + k)"

fun dec :: "nat \<Rightarrow> string" where
  "dec k = (if k < 10 then [digit k] else dec (k div 10) @ [digit (k mod 10)])"

declare dec.simps [simp del]

definition BN_bn2dec :: "int \<Rightarrow> string" where
  "BN_bn2dec b = (if b < 0 then CHR ''-'' # dec (nat (- b)) else dec (nat b))"

text \<open>
  The inner loop \<^verbatim>\<open>for (;;)\<close> of lines 523 to 550, which reads one sub-identifier from
  \<^verbatim>\<open>p\<close>. \<^verbatim>\<open>len\<close> is the length of the list that is left, so \<^verbatim>\<open>len == 0\<close> after
  \<^verbatim>\<open>len--\<close> is \<open>p = []\<close> for the rest \<open>p\<close>. \<open>None\<close> is \<^verbatim>\<open>goto err\<close>; otherwise the
  result is \<^verbatim>\<open>l\<close>, \<^verbatim>\<open>use_bn\<close>, the value of \<^verbatim>\<open>bl\<close> and the bytes not yet read. The loop
  is entered only when \<^verbatim>\<open>len > 0\<close> and goes round again only when a byte is left, so
  the first equation is never reached.
\<close>

definition ULONG_MAX :: ulong where "ULONG_MAX = - 1"

fun subid_loop ::
    "services \<Rightarrow> byte list \<Rightarrow> ulong \<Rightarrow> bool \<Rightarrow> int \<Rightarrow> (ulong \<times> bool \<times> int \<times> byte list) option" where
  "subid_loop sv [] l use_bn bl = None"
| "subid_loop sv (c # p) l use_bn bl =
     (if p = [] \<and> c AND 0x80 \<noteq> 0 then None
      else if use_bn \<and> \<not> bn_ok sv then None
      else
        (let bl1 = (if use_bn then bl + uint (c AND 0x7f) else bl);
             l1 = (if use_bn then l else l OR ucast (c AND 0x7f))
         in if c AND 0x80 = 0 then Some (l1, use_bn, bl1, p)
            else if \<not> use_bn \<and> l1 > drop_bit 7 ULONG_MAX then
              (if \<not> bn_ok sv then None
               else subid_loop sv p l1 True (push_bit 7 (uint l1)))
            else if use_bn then
              (if \<not> bn_ok sv then None
               else subid_loop sv p l1 True (push_bit 7 bl1))
            else subid_loop sv p (push_bit 7 l1) False bl1))"

text \<open>
  The block \<^verbatim>\<open>if (i > buf_len) { buf += buf_len; buf_len = 0; } else { buf += i;
  buf_len -= i; }\<close> that follows both copies.
\<close>

definition advance :: "int \<Rightarrow> out \<Rightarrow> out" where
  "advance i ot =
     (if i > o_len ot then ot\<lparr>o_pos := o_pos ot + o_len ot, o_len := 0\<rparr>
      else ot\<lparr>o_pos := o_pos ot + i, o_len := o_len ot - i\<rparr>)"

text \<open>\<^verbatim>\<open>*buf++ = c; *buf = '\0'; buf_len--;\<close>\<close>

definition put_char :: "char \<Rightarrow> out \<Rightarrow> out" where
  "put_char c ot =
     ot\<lparr>o_mem := (o_mem ot)(o_pos ot := c, o_pos ot + 1 := NUL),
        o_pos := o_pos ot + 1, o_len := o_len ot - 1\<rparr>"

text \<open>
  Lines 552 to 572, taken when \<^verbatim>\<open>first\<close> is set: the first sub-identifier is split,
  and the first arc \<^verbatim>\<open>i\<close> is written as one character. The result is the new
  \<^verbatim>\<open>l\<close>, the new \<^verbatim>\<open>bl\<close> and the output state, or \<open>None\<close> for \<^verbatim>\<open>goto err\<close>.
\<close>

definition first_arc ::
    "services \<Rightarrow> ulong \<Rightarrow> bool \<Rightarrow> int \<Rightarrow> out \<Rightarrow> (ulong \<times> int \<times> out) option" where
  "first_arc sv l use_bn bl ot =
     (if l \<ge> 80 \<and> use_bn \<and> \<not> bn_ok sv then None
      else
        (let i = (if l \<ge> 80 then 2 else uint (l div 40));
             l1 = (if l \<ge> 80 then (if use_bn then l else l - 80) else l - word_of_int (i * 40));
             bl1 = (if l \<ge> 80 \<and> use_bn then bl - 80 else bl);
             ot1 = (if \<not> o_null ot \<and> o_len ot > 1 then put_char (char_of (i + 48)) ot else ot)
         in Some (l1, bl1, ot1\<lparr>o_n := o_n ot1 + 1\<rparr>)))"

text \<open>Lines 574 to 613: one arc is printed after a dot.\<close>

definition emit_arc :: "services \<Rightarrow> ulong \<Rightarrow> bool \<Rightarrow> int \<Rightarrow> out \<Rightarrow> out option" where
  "emit_arc sv l use_bn bl ot =
     (if use_bn then
        (if \<not> bn_ok sv then None
         else
           (let bndec = BN_bn2dec bl; i = int (length bndec);
                ot1 = (if o_null ot then ot
                       else
                         (let ot' = (if o_len ot > 1 then put_char (CHR ''.'') ot else ot) in
                          advance i
                            (ot'\<lparr>o_mem := OPENSSL_strlcpy (o_mem ot') (o_pos ot') bndec (size_t (o_len ot'))\<rparr>)))
            in Some (ot1\<lparr>o_n := o_n ot1 + 1 + i\<rparr>)))
      else
        (let tbuf = CHR ''.'' # dec (unat l); i = int (length tbuf);
             ot1 = (if \<not> o_null ot \<and> o_len ot > 0
                    then advance i
                           (ot\<lparr>o_mem := OPENSSL_strlcpy (o_mem ot) (o_pos ot) tbuf (size_t (o_len ot))\<rparr>)
                    else ot)
         in Some (ot1\<lparr>o_n := o_n ot1 + i\<rparr>)))"

text \<open>
  The loop \<^verbatim>\<open>while (len > 0)\<close> of lines 520 to 614. The result is \<open>False\<close> with the
  output state reached when the loop leaves by \<^verbatim>\<open>goto err\<close>.
\<close>

function obj2txt_loop :: "services \<Rightarrow> byte list \<Rightarrow> bool \<Rightarrow> int \<Rightarrow> out \<Rightarrow> bool \<times> out" where
  "obj2txt_loop sv p first bl ot =
     (if p = [] then (True, ot)
      else
        (case subid_loop sv p 0 False bl of
           None \<Rightarrow> (False, ot)
         | Some (l, use_bn, bl1, rest) \<Rightarrow>
             (case (if first then first_arc sv l use_bn bl1 ot else Some (l, bl1, ot)) of
                None \<Rightarrow> (False, ot)
              | Some (l2, bl2, ot2) \<Rightarrow>
                  (case emit_arc sv l2 use_bn bl2 ot2 of
                     None \<Rightarrow> (False, ot2)
                   | Some ot3 \<Rightarrow> obj2txt_loop sv rest False bl2 ot3))))"
  by pat_completeness auto
termination
proof (relation "measure (\<lambda>(sv, p, first, bl, ot). length p)")
  have shorter: "subid_loop sv p l u bl = Some (l', u', bl', rest) \<Longrightarrow> length rest < length p"
    for sv p l u bl l' u' bl' rest
  proof (induction p arbitrary: l u bl)
    case Nil
    then show ?case by simp
  next
    case (Cons c p)
    from Cons.prems show ?case
      by (auto simp: Let_def split: if_splits dest!: Cons.IH)
  qed
  show "wf (measure (\<lambda>(sv, p, first, bl, ot). length p))"
    by simp
  show "((sv, rest, False, bl2, ot3), (sv, p, first, bl, ot)) \<in> measure (\<lambda>(sv, p, first, bl, ot). length p)"
    if "subid_loop sv p 0 False bl = Some x2" and "(l, y) = x2" and "(use_bn, ya) = y" and "(bl1, rest) = ya"
    for sv p first bl ot x2 l y use_bn ya bl1 rest bl2 ot3
    using shorter [of sv p 0 False bl l use_bn bl1 rest] that by simp
qed

declare obj2txt_loop.simps [simp del]

text \<open>
  Lines 484 to 493 of \<^verbatim>\<open>OBJ_obj2txt\<close>: unless \<^verbatim>\<open>no_name\<close> is set, the object is
  resolved to a NID and the long name, or else the short name, of that NID is the text.
\<close>

definition obj2txt_name ::
    "env \<Rightarrow> services \<Rightarrow> obj_state \<Rightarrow> ASN1_OBJECT \<Rightarrow> bool \<Rightarrow> string option \<times> obj_state" where
  "obj2txt_name e sv s a no_name =
     (if \<not> no_name then
        (let (k, s') = OBJ_obj2nid e sv s (Some a) in
         if k \<noteq> NID_undef then
           (case OBJ_nid2ln e sv s' k of
              (Some x, s'') \<Rightarrow> (Some x, s'')
            | (None, s'') \<Rightarrow> OBJ_nid2sn e sv s'' k)
         else (None, s'))
      else (None, s))"

text \<open>
  Lines 495 to 621 of \<^verbatim>\<open>OBJ_obj2txt\<close>, the spec's \<open>der_to_text\<close>: the length check
  and the loop over the content octets. The result is the return value and the memory.
\<close>

definition obj2txt_dotted ::
    "services \<Rightarrow> (int \<Rightarrow> char) \<Rightarrow> bool \<Rightarrow> int \<Rightarrow> ASN1_OBJECT \<Rightarrow> int \<times> (int \<Rightarrow> char)" where
  "obj2txt_dotted sv m null buf_len a =
     (if olength a > 586 then (-1, m)
      else
        (case obj2txt_loop sv (bytes_of (data a)) True 0
                \<lparr>o_mem = m, o_null = null, o_pos = 0, o_len = buf_len, o_n = 0\<rparr> of
           (True, ot) \<Rightarrow> (o_n ot, o_mem ot)
         | (False, ot) \<Rightarrow> (-1, o_mem ot)))"

text \<open>
  Lines 477 to 479: \<^verbatim>\<open>if (buf != NULL && buf_len > 0) buf[0] = '\0';\<close>. The buffer is
  \<open>None\<close> for \<^verbatim>\<open>buf == NULL\<close>; the memory is then one that nothing is written to.
\<close>

definition start_mem :: "(int \<Rightarrow> char) option \<Rightarrow> int \<Rightarrow> (int \<Rightarrow> char)" where
  "start_mem buf buf_len =
     (case buf of
        None \<Rightarrow> (\<lambda>k. NUL)
      | Some m \<Rightarrow> if buf_len > 0 then m(0 := NUL) else m)"

definition OBJ_obj2txt ::
    "env \<Rightarrow> services \<Rightarrow> obj_state \<Rightarrow> (int \<Rightarrow> char) option \<Rightarrow> int \<Rightarrow> ASN1_OBJECT option \<Rightarrow> bool
       \<Rightarrow> int \<times> (int \<Rightarrow> char) \<times> obj_state" where
  "OBJ_obj2txt e sv s buf buf_len a no_name =
     (let m1 = start_mem buf buf_len
      in case a of
           None \<Rightarrow> (0, m1, s)
         | Some a \<Rightarrow>
             if data a = None then (0, m1, s)
             else
               (case obj2txt_name e sv s a no_name of
                  (Some str, s1) \<Rightarrow>
                    (int (length str),
                     (if buf \<noteq> None then OPENSSL_strlcpy m1 0 str (size_t buf_len) else m1),
                     s1)
                | (None, s1) \<Rightarrow>
                    (let (r, m2) = obj2txt_dotted sv m1 (buf = None) buf_len a in (r, m2, s1))))"

subsection \<open>Registration\<close>

text \<open>
  Modelled from the spec: \<^verbatim>\<open>ASN1_OBJECT_new\<close> is not part of this file. The spec has a
  registration without an OID create "an entry with no DER bytes": a new object with
  no names, no data and \<^verbatim>\<open>NID_undef\<close>, owned by the caller, or \<^verbatim>\<open>NULL\<close> when the
  allocation fails.
\<close>

definition ASN1_OBJECT_new :: "services \<Rightarrow> ASN1_OBJECT option" where
  "ASN1_OBJECT_new sv =
     (if malloc_ok sv
      then Some \<lparr>sn = None, ln = None, nid = NID_undef, data = None, flags = ASN1_OBJECT_FLAG_DYNAMIC\<rparr>
      else None)"

text \<open>
  \<^verbatim>\<open>OBJ_create\<close>. \<^verbatim>\<open>tmpoid\<close> is an object that only this call points to (with
  \<^verbatim>\<open>no_name\<close> set, \<^verbatim>\<open>OBJ_txt2obj\<close> returns nothing else), so it is carried by value and
  its release at the end changes nothing of the state.
\<close>

definition tmpoid_of ::
    "env \<Rightarrow> services \<Rightarrow> obj_state \<Rightarrow> string option \<Rightarrow> ASN1_OBJECT option \<times> obj_state" where
  "tmpoid_of e sv s oid =
     (case oid of
        Some t \<Rightarrow>
          (case OBJ_txt2obj e sv s t True of
             (Some (Owned ob), s1) \<Rightarrow> (Some ob, s1)
           | (x, s1) \<Rightarrow> (None, s1))
      | None \<Rightarrow>
          (case ASN1_OBJECT_new sv of
             None \<Rightarrow> (None, ERR_raise ERR_R_ASN1_LIB s)
           | Some ob \<Rightarrow> (Some ob, s)))"

definition OBJ_create ::
    "env \<Rightarrow> services \<Rightarrow> obj_state \<Rightarrow> string option \<Rightarrow> string option \<Rightarrow> string option
       \<Rightarrow> fault + (int \<times> obj_state)" where
  "OBJ_create e sv s oid sname lname =
     (if oid = None \<and> sname = None \<and> lname = None
      then Inr (0, ERR_raise ERR_R_PASSED_INVALID_ARGUMENT s)
      else
        (let (n1, s1) = (case sname of None \<Rightarrow> (NID_undef, s) | Some x \<Rightarrow> OBJ_sn2nid e sv s x) in
         if sname \<noteq> None \<and> n1 \<noteq> NID_undef then Inr (0, ERR_raise OBJ_R_OID_EXISTS s1)
         else
           (let (n2, s2) = (case lname of None \<Rightarrow> (NID_undef, s1) | Some x \<Rightarrow> OBJ_ln2nid e sv s1 x) in
            if lname \<noteq> None \<and> n2 \<noteq> NID_undef then Inr (0, ERR_raise OBJ_R_OID_EXISTS s2)
            else
              (case tmpoid_of e sv s2 oid of
                 (None, s3) \<Rightarrow> Inr (0, s3)
               | (Some tmpoid, s3) \<Rightarrow>
                   if \<not> ossl_obj_write_lock sv True
                   then Inr (0, ERR_raise ERR_R_UNABLE_TO_GET_WRITE_LOCK s3)
                   else
                     (let (n3, s4) = (if oid \<noteq> None then ossl_obj_obj2nid e sv s3 (Some tmpoid) False
                                      else (NID_undef, s3)) in
                      if oid \<noteq> None \<and> n3 \<noteq> NID_undef then Inr (0, ERR_raise OBJ_R_OID_EXISTS s4)
                      else
                        (let (k, s5) = obj_new_nid_unlocked 1 s4 in
                         if k = NID_undef then Inr (0, s5)
                         else ossl_obj_add_object sv s5 (tmpoid\<lparr>nid := k, sn := sname, ln := lname\<rparr>) False))))))"

subsection \<open>Bulk loading\<close>

text \<open>
  The line buffer \<^verbatim>\<open>char buf[512]\<close> is a list of 512 characters; the pointers \<^verbatim>\<open>o\<close>,
  \<^verbatim>\<open>s\<close>, \<^verbatim>\<open>l\<close> into it are offsets, \<open>None\<close> for \<^verbatim>\<open>NULL\<close>. A C string at an offset runs
  to the next terminator.
\<close>

definition peek :: "char list \<Rightarrow> nat \<Rightarrow> char" where
  "peek buf k = (if k < length buf then buf ! k else NUL)"

definition cstr_at :: "char list \<Rightarrow> nat \<Rightarrow> string" where
  "cstr_at buf k = takeWhile (\<lambda>c. c \<noteq> NUL) (drop k buf)"

text \<open>\<^verbatim>\<open>while (P(*s)) s++;\<close> from the offset \<open>k\<close>.\<close>

definition skip :: "(char \<Rightarrow> bool) \<Rightarrow> char list \<Rightarrow> nat \<Rightarrow> nat" where
  "skip P buf k = k + length (takeWhile P (drop k buf))"

text \<open>
  Modelled from the spec: \<^verbatim>\<open>BIO_gets\<close> is not part of this file. The spec has the
  loader consume "a generic line source" with lines of at most 512 bytes: one call
  stores the next line (its newline included, at most 511 characters) and a
  terminator at the start of the buffer and returns the number of characters stored.
\<close>

definition BIO_gets :: "string \<Rightarrow> char list \<Rightarrow> int \<times> char list" where
  "BIO_gets line buf =
     (let got = take 511 line in
      (int (length got), got @ [NUL] @ drop (length got + 1) buf))"

text \<open>
  Lines 744 to 770: the line in \<^verbatim>\<open>buf\<close> is cut into the OID, the short name \<^verbatim>\<open>s\<close> and
  the long name \<^verbatim>\<open>l\<close>. \<^verbatim>\<open>l\<close> is assigned only on the branch that finds a short name;
  on the other branches it keeps the value it had.
\<close>

definition parse_line :: "char list \<Rightarrow> nat option \<Rightarrow> char list \<times> nat option \<times> nat option" where
  "parse_line buf l =
     (let s = skip (\<lambda>c. ossl_isdigit c \<or> c = CHR ''.'') buf 0 in
      if peek buf s \<noteq> NUL then
        (let buf1 = buf[s := NUL];
             s1 = skip ossl_isspace buf1 (s + 1)
         in if peek buf1 s1 = NUL then (buf1, None, l)
            else
              (let l1 = skip (\<lambda>c. c \<noteq> NUL \<and> \<not> ossl_isspace c) buf1 s1 in
               if peek buf1 l1 \<noteq> NUL then
                 (let buf2 = buf1[l1 := NUL];
                      l2 = skip ossl_isspace buf2 (l1 + 1)
                  in if peek buf2 l2 = NUL then (buf2, Some s1, None)
                     else (buf2, Some s1, Some l2))
               else (buf1, Some s1, None)))
      else (buf, None, l))"

text \<open>
  The loop of \<^verbatim>\<open>OBJ_create_objects\<close>. The input is the list of lines that the calls of
  \<^verbatim>\<open>BIO_gets\<close> deliver; at its end \<^verbatim>\<open>BIO_gets\<close> returns 0. \<open>sv k\<close> are the services
  as the \<open>k\<close>-th line from here finds them.
\<close>

fun create_objects_loop ::
    "env \<Rightarrow> (nat \<Rightarrow> services) \<Rightarrow> string list \<Rightarrow> char list \<Rightarrow> nat option \<Rightarrow> int \<Rightarrow> obj_state
       \<Rightarrow> fault + (int \<times> obj_state)" where
  "create_objects_loop e sv [] buf l num s = Inr (num, s)"
| "create_objects_loop e sv (line # rest) buf l num s =
     (let (i, buf1) = BIO_gets line buf in
      if i \<le> 0 then Inr (num, s)
      else
        (let buf2 = buf1[nat (i - 1) := NUL] in
         if \<not> ossl_isalnum (peek buf2 0) then Inr (num, s)
         else
           (let (buf3, sp, lp) = parse_line buf2 l in
            if peek buf3 0 = NUL then Inr (num, s)
            else
              (case OBJ_create e (sv 0) s (Some (cstr_at buf3 0))
                      (map_option (cstr_at buf3) sp) (map_option (cstr_at buf3) lp) of
                 Inl x \<Rightarrow> Inl x
               | Inr (ok, s1) \<Rightarrow>
                   if ok = 0 then Inr (num, s1)
                   else create_objects_loop e (\<lambda>k. sv (Suc k)) rest buf3 lp (num + 1) s1))))"

definition OBJ_create_objects ::
    "env \<Rightarrow> (nat \<Rightarrow> services) \<Rightarrow> obj_state \<Rightarrow> string list \<Rightarrow> fault + (int \<times> obj_state)" where
  "OBJ_create_objects e sv s lines = create_objects_loop e sv lines (replicate 512 NUL) None 0 s"


subsection \<open>A small registry for concrete runs\<close>

text \<open>
  A built-in table of three entries (the undefined entry, \<open>commonName\<close> with the OID
  2.5.4.3, and a hole), an encoder that knows two dotted forms, services that all
  succeed, and the state before the first registration.
\<close>

definition env0 :: env where
  "env0 = \<lparr>nid_objs = [\<lparr>sn = Some ''UNDEF'', ln = Some ''undefined'', nid = 0, data = None, flags = 0\<rparr>,
                        \<lparr>sn = Some ''CN'', ln = Some ''commonName'', nid = 1, data = Some [0x55, 4, 3], flags = 0\<rparr>,
                        \<lparr>sn = None, ln = None, nid = 0, data = None, flags = 0\<rparr>],
            sn_objs = [1, 0], ln_objs = [1, 0], obj_objs = [1],
            a2d_ASN1_OBJECT = (\<lambda>t. if t = ''1.2.3'' then Some [0x2A, 3]
                                    else if t = ''2.5.4.3'' then Some [0x55, 4, 3] else None)\<rparr>"

definition sv0 :: services where
  "sv0 = \<lparr>lock_ok = True, dup_ok = True, cell_ok = (\<lambda>i. True), lh_new_ok = True,
           insert_ok = (\<lambda>i. True), malloc_ok = True, d2i_ok = True, bn_ok = True\<rparr>"

definition st0 :: obj_state where
  "st0 = \<lparr>objects = Map.empty, cells = Map.empty, brk = 0, added = None, new_nid = 3, errors = [],
           freed_objects = [], freed_cells = []\<rparr>"

text \<open>The state after \<open>register("1.2.3", "x", "y")\<close> on \<open>st0\<close>: one object, four cells.\<close>

definition st1 :: obj_state where
  "st1 = \<lparr>objects = [0 \<mapsto> \<lparr>sn = Some ''x'', ln = Some ''y'', nid = 3, data = Some [0x2A, 3], flags = 0\<rparr>],
           cells = [1 \<mapsto> \<lparr>ao_type = 3, ao_obj = 0\<rparr>, 2 \<mapsto> \<lparr>ao_type = 0, ao_obj = 0\<rparr>,
                    3 \<mapsto> \<lparr>ao_type = 1, ao_obj = 0\<rparr>, 4 \<mapsto> \<lparr>ao_type = 2, ao_obj = 0\<rparr>],
           brk = 5, added = Some [2, 3, 4, 1], new_nid = 4, errors = [],
           freed_objects = [], freed_cells = []\<rparr>"

subsection \<open>Notions the properties are stated with\<close>

text \<open>
  A key is present in the added index when the table holds a cell of the key's tag
  whose object has the field looked for.
\<close>

definition in_added :: "obj_state \<Rightarrow> int \<Rightarrow> (ASN1_OBJECT \<Rightarrow> bool) \<Rightarrow> bool" where
  "in_added s t P =
     (\<exists>p \<in> set (the_table s). \<exists>c ob. cells s p = Some c \<and> objects s (ao_obj c) = Some ob
         \<and> ao_type c = t \<and> P ob)"


text \<open>
  The reference count of the object at \<open>q\<close>: the number of cells of the table that
  point to it. \<open>zeroed\<close> is what the first teardown pass makes of an object.
\<close>

definition refcount :: "obj_state \<Rightarrow> addr list \<Rightarrow> addr \<Rightarrow> nat" where
  "refcount s tab q = length (filter (\<lambda>p. map_option ao_obj (cells s p) = Some q) tab)"

definition zeroed :: "ASN1_OBJECT \<Rightarrow> ASN1_OBJECT" where
  "zeroed ob = ob\<lparr>nid := 0, flags := flags ob OR DYNAMIC_BITS\<rparr>"

text \<open>
  Two states have the same heap of objects when they agree on the objects and on the next
  fresh address; the calls that only read the registry, or only change cells, the table
  and the error queue, keep it.
\<close>

definition same_heap :: "obj_state \<Rightarrow> obj_state \<Rightarrow> bool" where
  "same_heap s s' = (objects s' = objects s \<and> brk s' = brk s)"

subsection \<open>The decoder of the specification\<close>

text \<open>
  The specification's \<open>der_to_text\<close> (section 4.2.2), written from its words, to compare
  \<^verbatim>\<open>OBJ_obj2txt\<close> with. Each sub-identifier is decoded by accumulating 7-bit groups, the
  high bit being set on every octet but the last; the accumulator is a natural number, so
  it has arbitrary precision. The first sub-identifier \<open>v0\<close> is split into \<open>(a, b)\<close> by: if
  \<open>v0 < 80\<close> then \<open>a = v0 / 40\<close>, \<open>b = v0 mod 40\<close>; else \<open>a = 2\<close>, \<open>b = v0 - 80\<close>. The arcs are
  emitted in decimal, joined by dots. An octet string whose last octet has the high bit
  set is rejected by the specification; the incomplete group at its end yields no
  sub-identifier here.
\<close>

fun spec_subids :: "byte list \<Rightarrow> nat \<Rightarrow> nat list" where
  "spec_subids [] acc = []"
| "spec_subids (c # p) acc =
     (let v = acc * 128 + unat (c AND 0x7f) in
      if c AND 0x80 = 0 then v # spec_subids p 0 else spec_subids p v)"

definition spec_split_first :: "nat \<Rightarrow> nat \<times> nat" where
  "spec_split_first v0 = (if v0 < 80 then (v0 div 40, v0 mod 40) else (2, v0 - 80))"

definition spec_dotted :: "nat list \<Rightarrow> string" where
  "spec_dotted vs = concat (map (\<lambda>v. CHR ''.'' # dec v) vs)"

definition spec_der_to_text :: "byte list \<Rightarrow> string" where
  "spec_der_to_text d =
     (case spec_subids d 0 of
        [] \<Rightarrow> []
      | v0 # vs \<Rightarrow> (let (a, b) = spec_split_first v0 in dec a @ spec_dotted (b # vs)))"

subsection \<open>Notions for the output buffer\<close>

text \<open>
  \<open>holds_text m cap t\<close>: the buffer \<open>m\<close> of capacity \<open>cap\<close> holds the text \<open>t\<close>, cut to
  \<open>cap - 1\<close> characters when it is longer, and the terminator after it. \<open>full_text\<close> is
  the whole text that \<^verbatim>\<open>OBJ_obj2txt\<close> has to print: nothing for an absent object or
  absent data, the name that \<^verbatim>\<open>obj2txt_name\<close> finds, or else the dotted form of the content
  octets.
\<close>

definition holds_text :: "(int \<Rightarrow> char) \<Rightarrow> int \<Rightarrow> string \<Rightarrow> bool" where
  "holds_text m cap t \<longleftrightarrow>
     (\<forall>k. 0 \<le> k \<and> k < min (int (length t)) (cap - 1) \<longrightarrow> m k = t ! nat k) \<and>
     (1 \<le> cap \<longrightarrow> m (min (int (length t)) (cap - 1)) = NUL)"

definition full_text :: "env \<Rightarrow> services \<Rightarrow> obj_state \<Rightarrow> ASN1_OBJECT option \<Rightarrow> bool \<Rightarrow> string" where
  "full_text e sv s a no_name =
     (case a of
        None \<Rightarrow> []
      | Some ob \<Rightarrow>
          if data ob = None then []
          else
            (case fst (obj2txt_name e sv s ob no_name) of
               Some str \<Rightarrow> str
             | None \<Rightarrow> spec_der_to_text (bytes_of (data ob))))"

text \<open>
  The invariants of the two loops. \<open>sub_inv\<close>, at the head of the inner loop: \<open>acc\<close> is the
  value of the groups read so far; without the big number, \<^verbatim>\<open>l\<close> is that value shifted by
  7 bits and the shift has lost nothing; with it, \<^verbatim>\<open>bl\<close> is. \<open>buf_inv\<close>, between two writes:
  \<open>t\<close> is the text printed so far, \<^verbatim>\<open>n\<close> is its length, \<^verbatim>\<open>buf\<close> and \<^verbatim>\<open>buf_len\<close> stay within the
  capacity, the buffer holds \<open>t\<close> cut to the capacity with its terminator, and the memory
  outside the capacity is as it was.
\<close>

definition sub_inv :: "ulong \<Rightarrow> bool \<Rightarrow> int \<Rightarrow> nat \<Rightarrow> bool" where
  "sub_inv l u bl acc \<longleftrightarrow>
     (if u then bl = int acc * 128 \<and> 80 \<le> acc \<and> 80 \<le> l
      else \<exists>w. l = push_bit 7 w \<and> w \<le> drop_bit 7 ULONG_MAX \<and> unat w = acc)"

definition buf_inv :: "int \<Rightarrow> (int \<Rightarrow> char) \<Rightarrow> string \<Rightarrow> out \<Rightarrow> bool" where
  "buf_inv cap m0 t ot \<longleftrightarrow>
     o_n ot = int (length t) \<and>
     (\<not> o_null ot \<longrightarrow>
        0 \<le> o_len ot \<and> 0 \<le> o_pos ot \<and> o_pos ot + o_len ot = cap \<and> o_pos ot \<le> o_n ot \<and>
        (1 < o_len ot \<longrightarrow> o_pos ot = o_n ot) \<and>
        (o_len ot = 0 \<longrightarrow> cap - 1 \<le> o_n ot) \<and>
        (\<forall>k. 0 \<le> k \<and> k < min (o_n ot) (cap - 1) \<longrightarrow> o_mem ot k = t ! nat k) \<and>
        (1 \<le> cap \<longrightarrow> o_mem ot (min (o_n ot) (cap - 1)) = NUL) \<and>
        (\<forall>k. k < 0 \<or> cap \<le> k \<longrightarrow> o_mem ot k = m0 k))"

section \<open>Properties\<close>

subsection \<open>Object to text on an absent object\<close>

text \<open>
  C10. \<^verbatim>\<open>OBJ_obj2txt\<close> called with \<^verbatim>\<open>a == NULL\<close> or with an object whose \<^verbatim>\<open>data\<close> pointer
  is \<^verbatim>\<open>NULL\<close> returns 0, which is not the error value -1, and leaves the registry
  state as it is; when the buffer is not \<^verbatim>\<open>NULL\<close> and its capacity is at least 1, the
  only write is the terminator at offset 0, so the buffer holds the empty string.
\<close>

theorem obj2txt_null_object:
  assumes "a = None \<or> (\<exists>ob. a = Some ob \<and> data ob = None)"
  shows "fst (OBJ_obj2txt e sv s buf buf_len a no_name) = 0
       \<and> fst (OBJ_obj2txt e sv s buf buf_len a no_name) \<noteq> - 1
       \<and> snd (snd (OBJ_obj2txt e sv s buf buf_len a no_name)) = s
       \<and> (\<forall>m. buf = Some m \<and> 1 \<le> buf_len \<longrightarrow>
            fst (snd (OBJ_obj2txt e sv s buf buf_len a no_name)) = m(0 := NUL))"
  using assms by (auto simp: OBJ_obj2txt_def Let_def start_mem_def)

theorem obj2txt_null_object_witness:
  "fst (OBJ_obj2txt env0 sv0 st0 (Some (\<lambda>k. CHR ''x'')) 4 None False) = 0
   \<and> fst (snd (OBJ_obj2txt env0 sv0 st0 (Some (\<lambda>k. CHR ''x'')) 4 None False)) 0 = NUL"
  using obj2txt_null_object [of None env0 sv0 st0 "Some (\<lambda>k. CHR ''x'')" 4 False] by simp

subsection \<open>Lookups that find nothing\<close>

lemmas tag_defs = NID_undef_def ADDED_DATA_def ADDED_SNAME_def ADDED_LNAME_def ADDED_NID_def

lemma strcmp_eq_0 [simp]: "strcmp a b = 0 \<longleftrightarrow> a = b"
  by (induction a b rule: strcmp.induct) auto

lemma memcmp_eq_0:
  "n \<le> length xs \<Longrightarrow> n \<le> length ys \<Longrightarrow> memcmp xs ys n = 0 \<longleftrightarrow> take n xs = take n ys"
  by (induction xs ys n rule: memcmp.induct) auto

lemma bsearch_Some:
  "ossl_bsearch cmp base l h = Some i \<Longrightarrow> l \<le> i \<and> i < h \<and> cmp (base ! i) = 0"
proof (induction cmp base l h rule: ossl_bsearch.induct)
  case (1 cmp base l h)
  show ?case
  proof (cases "l < h")
    case False
    with "1.prems" show ?thesis by (simp add: ossl_bsearch.simps)
  next
    case True
    let ?m = "(l + h) div 2"
    consider "cmp (base ! ?m) < 0" | "cmp (base ! ?m) > 0" | "cmp (base ! ?m) = 0"
      by linarith
    then show ?thesis
    proof cases
      case 1
      with True "1.prems" have "ossl_bsearch cmp base l ?m = Some i"
        by (simp add: ossl_bsearch.simps [of cmp base l h] Let_def)
      from "1.IH"(1) [OF True refl refl 1 this] True show ?thesis by auto
    next
      case 2
      with True "1.prems" have "ossl_bsearch cmp base (?m + 1) h = Some i"
        by (simp add: ossl_bsearch.simps [of cmp base l h] Let_def)
      from "1.IH"(2) [OF True refl refl _ 2 this] 2 True show ?thesis by auto
    next
      case 3
      with True "1.prems" have "i = ?m"
        by (simp add: ossl_bsearch.simps [of cmp base l h] Let_def)
      with 3 True show ?thesis by auto
    qed
  qed
qed

lemma bsearch_None:
  assumes "\<forall>b \<in> set base. cmp b \<noteq> 0" and "h \<le> length base"
  shows "ossl_bsearch cmp base l h = None"
proof (cases "ossl_bsearch cmp base l h")
  case None
  then show ?thesis .
next
  case (Some i)
  from bsearch_Some [OF Some] assms have "base ! i \<in> set base" "cmp (base ! i) = 0"
    by auto
  with assms have False by blast
  then show ?thesis ..
qed

lemma retrieve_None:
  "(\<forall>p \<in> set tab. \<not> matches s k p) \<Longrightarrow> lh_ADDED_OBJ_retrieve s tab k = None"
  by (simp add: lh_ADDED_OBJ_retrieve_def find_None_iff)

lemma not_in_added_sn:
  assumes "\<not> in_added s ADDED_SNAME (\<lambda>ob. sn ob = Some str)" and "added s = Some tab"
  shows "lh_ADDED_OBJ_retrieve s tab (ADDED_SNAME, probe\<lparr>sn := Some str\<rparr>) = None"
  using assms
  by (intro retrieve_None)
     (auto simp: in_added_def the_table_def matches_def key_of_cell_def added_obj_cmp_def Let_def
        ADDED_SNAME_def ADDED_DATA_def split: option.splits)

lemma not_in_added_ln:
  assumes "\<not> in_added s ADDED_LNAME (\<lambda>ob. ln ob = Some str)" and "added s = Some tab"
  shows "lh_ADDED_OBJ_retrieve s tab (ADDED_LNAME, probe\<lparr>ln := Some str\<rparr>) = None"
  using assms
  by (intro retrieve_None)
     (auto simp: in_added_def the_table_def matches_def key_of_cell_def added_obj_cmp_def Let_def
        ADDED_SNAME_def ADDED_DATA_def ADDED_LNAME_def split: option.splits)

lemma not_in_added_nid:
  assumes "\<not> in_added s ADDED_NID (\<lambda>ob. nid ob = n)" and "added s = Some tab"
  shows "lh_ADDED_OBJ_retrieve s tab (ADDED_NID, probe\<lparr>nid := n\<rparr>) = None"
  using assms
  by (intro retrieve_None)
     (auto simp: in_added_def the_table_def matches_def key_of_cell_def added_obj_cmp_def Let_def
        ADDED_SNAME_def ADDED_DATA_def ADDED_LNAME_def ADDED_NID_def split: option.splits)

lemma olength_bytes: "olength a = int (length (bytes_of (data a)))"
  by (simp add: olength_def bytes_of_def split: option.splits)

lemma not_in_added_data:
  assumes "\<not> in_added s ADDED_DATA (\<lambda>ob. bytes_of (data ob) = bytes_of (data a))" and "added s = Some tab"
  shows "lh_ADDED_OBJ_retrieve s tab (ADDED_DATA, a) = None"
proof (intro retrieve_None ballI)
  fix p assume p: "p \<in> set tab"
  show "\<not> matches s (ADDED_DATA, a) p"
  proof
    assume m: "matches s (ADDED_DATA, a) p"
    then obtain c ob where c: "cells s p = Some c" "objects s (ao_obj c) = Some ob"
      and cmp: "added_obj_cmp (ao_type c, ob) (ADDED_DATA, a) = 0"
      by (auto simp: matches_def key_of_cell_def split: option.splits)
    from cmp have t: "ao_type c = ADDED_DATA"
      by (auto simp: added_obj_cmp_def Let_def split: if_splits)
    from cmp t have len: "olength ob = olength a"
      by (auto simp: added_obj_cmp_def Let_def split: if_splits)
    from cmp t len have "memcmp (bytes_of (data ob)) (bytes_of (data a)) (nat (olength ob)) = 0"
      by (auto simp: added_obj_cmp_def Let_def split: if_splits)
    with len have "bytes_of (data ob) = bytes_of (data a)"
      by (simp add: olength_bytes memcmp_eq_0)
    with assms p c t show False
      by (auto simp: in_added_def the_table_def)
  qed
qed

lemma sn2nid_miss:
  assumes "\<forall>b \<in> set (sn_objs e). name_of (sn (nid_objs e ! b)) \<noteq> str"
    and "\<not> in_added s ADDED_SNAME (\<lambda>ob. sn ob = Some str)"
  shows "OBJ_sn2nid e sv s str
          = (NID_undef, if lock_ok sv then s else ERR_raise ERR_R_UNABLE_TO_GET_READ_LOCK s)"
proof -
  from assms(1) have "OBJ_bsearch_sn e str = None"
    unfolding OBJ_bsearch_sn_def by (intro bsearch_None) (auto simp: sn_cmp_def)
  with assms(2) show ?thesis
    by (auto simp: OBJ_sn2nid_def ossl_obj_read_lock_def not_in_added_sn split: option.splits)
qed

lemma ln2nid_miss:
  assumes "\<forall>b \<in> set (ln_objs e). name_of (ln (nid_objs e ! b)) \<noteq> str"
    and "\<not> in_added s ADDED_LNAME (\<lambda>ob. ln ob = Some str)"
  shows "OBJ_ln2nid e sv s str
          = (NID_undef, if lock_ok sv then s else ERR_raise ERR_R_UNABLE_TO_GET_READ_LOCK s)"
proof -
  from assms(1) have "OBJ_bsearch_ln e str = None"
    unfolding OBJ_bsearch_ln_def by (intro bsearch_None) (auto simp: ln_cmp_def)
  with assms(2) show ?thesis
    by (auto simp: OBJ_ln2nid_def ossl_obj_read_lock_def not_in_added_ln split: option.splits)
qed

text \<open>
  C3 (as the code has it). A short name or a long name that is neither in the built-in
  table nor in the added index resolves to \<^verbatim>\<open>NID_undef\<close>, and the state (the error queue
  with it) is unchanged unless the read lock cannot be taken. \<^verbatim>\<open>OBJ_obj2nid\<close> returns the
  NID that the object carries when it carries one, without any lookup and without an
  error; for an object without NID whose DER octets are in neither table it returns
  \<^verbatim>\<open>NID_undef\<close>, and the state is unchanged unless the octets are not empty and the read
  lock cannot be taken. \<^verbatim>\<open>OBJ_nid2obj\<close> is different: for a NID other than \<^verbatim>\<open>NID_undef\<close>
  that is in neither table it returns \<^verbatim>\<open>NULL\<close> and raises an error, \<^verbatim>\<open>OBJ_R_UNKNOWN_NID\<close>
  when the read lock was taken and the lock error otherwise.
\<close>

theorem lookup_miss:
  "((\<forall>b \<in> set (sn_objs e). name_of (sn (nid_objs e ! b)) \<noteq> str)
      \<and> \<not> in_added s ADDED_SNAME (\<lambda>ob. sn ob = Some str)
     \<longrightarrow> OBJ_sn2nid e sv s str
          = (NID_undef, if lock_ok sv then s else ERR_raise ERR_R_UNABLE_TO_GET_READ_LOCK s))
   \<and> ((\<forall>b \<in> set (ln_objs e). name_of (ln (nid_objs e ! b)) \<noteq> str)
      \<and> \<not> in_added s ADDED_LNAME (\<lambda>ob. ln ob = Some str)
     \<longrightarrow> OBJ_ln2nid e sv s str
          = (NID_undef, if lock_ok sv then s else ERR_raise ERR_R_UNABLE_TO_GET_READ_LOCK s))
   \<and> (nid a = NID_undef
      \<and> (\<forall>b \<in> set (obj_objs e). bytes_of (data (nid_objs e ! b)) \<noteq> bytes_of (data a))
      \<and> \<not> in_added s ADDED_DATA (\<lambda>ob. bytes_of (data ob) = bytes_of (data a))
     \<longrightarrow> OBJ_obj2nid e sv s (Some a)
          = (NID_undef, if lock_ok sv \<or> olength a = 0 then s
                        else ERR_raise ERR_R_UNABLE_TO_GET_READ_LOCK s))
   \<and> (nid b \<noteq> NID_undef \<longrightarrow> OBJ_obj2nid e sv s (Some b) = (nid b, s))
   \<and> (n \<noteq> NID_undef \<and> \<not> (0 < n \<and> n < NUM_NID e \<and> nid (nid_objs e ! nat n) \<noteq> NID_undef)
      \<and> \<not> in_added s ADDED_NID (\<lambda>ob. nid ob = n)
     \<longrightarrow> OBJ_nid2obj e sv s n
          = (None, ERR_raise (if lock_ok sv then OBJ_R_UNKNOWN_NID
                              else ERR_R_UNABLE_TO_GET_READ_LOCK) s))"
proof (intro conjI impI)
  assume a: "(\<forall>b \<in> set (sn_objs e). name_of (sn (nid_objs e ! b)) \<noteq> str)
      \<and> \<not> in_added s ADDED_SNAME (\<lambda>ob. sn ob = Some str)"
  then show "OBJ_sn2nid e sv s str
          = (NID_undef, if lock_ok sv then s else ERR_raise ERR_R_UNABLE_TO_GET_READ_LOCK s)"
    by (intro sn2nid_miss) simp_all
next
  assume a: "(\<forall>b \<in> set (ln_objs e). name_of (ln (nid_objs e ! b)) \<noteq> str)
      \<and> \<not> in_added s ADDED_LNAME (\<lambda>ob. ln ob = Some str)"
  then show "OBJ_ln2nid e sv s str
          = (NID_undef, if lock_ok sv then s else ERR_raise ERR_R_UNABLE_TO_GET_READ_LOCK s)"
    by (intro ln2nid_miss) simp_all
next
  assume a: "nid a = NID_undef
      \<and> (\<forall>b \<in> set (obj_objs e). bytes_of (data (nid_objs e ! b)) \<noteq> bytes_of (data a))
      \<and> \<not> in_added s ADDED_DATA (\<lambda>ob. bytes_of (data ob) = bytes_of (data a))"
  have "obj_cmp e a b \<noteq> 0" if "b \<in> set (obj_objs e)" "olength a \<noteq> 0" for b
  proof
    assume z: "obj_cmp e a b = 0"
    then have len: "olength a = olength (nid_objs e ! b)"
      by (auto simp: obj_cmp_def Let_def split: if_splits)
    with z that have "memcmp (bytes_of (data a)) (bytes_of (data (nid_objs e ! b))) (nat (olength a)) = 0"
      by (auto simp: obj_cmp_def Let_def split: if_splits)
    with len have "bytes_of (data a) = bytes_of (data (nid_objs e ! b))"
      by (simp add: olength_bytes memcmp_eq_0)
    with a that show False by auto
  qed
  then have "olength a \<noteq> 0 \<Longrightarrow> OBJ_bsearch_obj e a = None"
    unfolding OBJ_bsearch_obj_def by (intro bsearch_None) auto
  with a show "OBJ_obj2nid e sv s (Some a)
          = (NID_undef, if lock_ok sv \<or> olength a = 0 then s
                        else ERR_raise ERR_R_UNABLE_TO_GET_READ_LOCK s)"
    by (auto simp: OBJ_obj2nid_def ossl_obj_obj2nid_def ossl_obj_read_lock_def not_in_added_data
          split: option.splits)
next
  assume "nid b \<noteq> NID_undef"
  then show "OBJ_obj2nid e sv s (Some b) = (nid b, s)"
    by (simp add: OBJ_obj2nid_def ossl_obj_obj2nid_def)
next
  assume a: "n \<noteq> NID_undef \<and> \<not> (0 < n \<and> n < NUM_NID e \<and> nid (nid_objs e ! nat n) \<noteq> NID_undef)
      \<and> \<not> in_added s ADDED_NID (\<lambda>ob. nid ob = n)"
  then show "OBJ_nid2obj e sv s n
          = (None, ERR_raise (if lock_ok sv then OBJ_R_UNKNOWN_NID
                              else ERR_R_UNABLE_TO_GET_READ_LOCK) s)"
    by (auto simp: OBJ_nid2obj_def ossl_obj_read_lock_def not_in_added_nid Let_def split: option.splits)
qed

lemma in_added_st1:
  "in_added st1 t P \<longleftrightarrow> (t \<in> {0, 1, 2, 3} \<and> P \<lparr>sn = Some ''x'', ln = Some ''y'', nid = 3, data = Some [0x2A, 3], flags = 0\<rparr>)"
  by (auto simp: in_added_def st1_def the_table_def tag_defs)

theorem lookup_miss_witness:
  "OBJ_sn2nid env0 sv0 st1 ''zz'' = (NID_undef, st1)
   \<and> OBJ_ln2nid env0 sv0 st1 ''zz'' = (NID_undef, st1)
   \<and> OBJ_obj2nid env0 sv0 st1 (Some (probe\<lparr>data := Some [0x2A, 4]\<rparr>)) = (NID_undef, st1)
   \<and> OBJ_obj2nid env0 sv0 st1 (Some (probe\<lparr>nid := 77, data := Some [0x2A, 4]\<rparr>)) = (77, st1)
   \<and> OBJ_nid2obj env0 sv0 st1 77 = (None, ERR_raise OBJ_R_UNKNOWN_NID st1)"
  using lookup_miss [of env0 "''zz''" st1 sv0 "probe\<lparr>data := Some [0x2A, 4]\<rparr>"
      "probe\<lparr>nid := 77, data := Some [0x2A, 4]\<rparr>" 77]
  by (simp add: in_added_st1 env0_def sv0_def name_of_def bytes_of_def probe_def tag_defs NUM_NID_def olength_def)

text \<open>
  The claim C3 as stated fails for \<^verbatim>\<open>OBJ_nid2obj\<close>: NID 77 is in neither table, no
  lock or allocation fails, and the error queue, empty before, holds
  \<^verbatim>\<open>OBJ_R_UNKNOWN_NID\<close> after the call.
\<close>

theorem nid2obj_miss_counterexample:
  "added st0 = None \<and> \<not> (77 < NUM_NID env0) \<and> lock_ok sv0 \<and> errors st0 = []
   \<and> fst (OBJ_nid2obj env0 sv0 st0 77) = None
   \<and> errors (snd (OBJ_nid2obj env0 sv0 st0 77)) = [OBJ_R_UNKNOWN_NID]"
  by (simp add: OBJ_nid2obj_def NUM_NID_def env0_def tag_defs sv0_def st0_def
      ossl_obj_read_lock_def ERR_raise_def)

subsection \<open>Text to object\<close>




lemmas ex_defs = env0_def sv0_def st0_def st1_def


subsection \<open>Registration of a known name or OID\<close>





lemma sn2nid_state: "\<exists>es. snd (OBJ_sn2nid e sv s str) = s\<lparr>errors := errors s @ es\<rparr>"
proof (cases "snd (OBJ_sn2nid e sv s str) = s")
  case True
  then have "snd (OBJ_sn2nid e sv s str) = s\<lparr>errors := errors s @ []\<rparr>" by simp
  then show ?thesis by blast
next
  case False
  then have "snd (OBJ_sn2nid e sv s str) = s\<lparr>errors := errors s @ [ERR_R_UNABLE_TO_GET_READ_LOCK]\<rparr>"
    by (auto simp: OBJ_sn2nid_def ERR_raise_def split: option.splits if_splits)
  then show ?thesis by blast
qed

lemma matches_errors [simp]: "matches (s\<lparr>errors := es\<rparr>) = matches s"
  by (simp add: fun_eq_iff matches_def key_of_cell_def cong: option.case_cong)

lemma retrieve_errors [simp]:
  "lh_ADDED_OBJ_retrieve (s\<lparr>errors := es\<rparr>) tab k = lh_ADDED_OBJ_retrieve s tab k"
  by (simp add: lh_ADDED_OBJ_retrieve_def)

lemma obj_of_cell_errors [simp]: "obj_of_cell (s\<lparr>errors := es\<rparr>) = obj_of_cell s"
  by (simp add: obj_of_cell_def fun_eq_iff cong: option.case_cong)

lemma obj2nid_unlocked_state: "snd (ossl_obj_obj2nid e sv s a False) = s"
  by (auto simp: ossl_obj_obj2nid_def ossl_obj_read_lock_def split: option.splits)




subsection \<open>Inputs that the decoder rejects\<close>

lemma subid_loop_shorter:
  "subid_loop sv p l u bl = Some (l', u', bl', rest) \<Longrightarrow> length rest < length p"
proof (induction p arbitrary: l u bl)
  case Nil
  then show ?case by simp
next
  case (Cons c p)
  from Cons.prems show ?case
    by (auto simp: Let_def split: if_splits dest!: Cons.IH)
qed

lemma subid_loop_last:
  "p \<noteq> [] \<Longrightarrow> last p AND 0x80 \<noteq> 0 \<Longrightarrow> subid_loop sv p l u bl = Some (l', u', bl', rest)
     \<Longrightarrow> rest \<noteq> [] \<and> last rest = last p"
proof (induction p arbitrary: l u bl)
  case Nil
  then show ?case by simp
next
  case (Cons c p)
  show ?case
  proof (cases "p = []")
    case True
    with Cons.prems show ?thesis by simp
  next
    case False
    with Cons.prems have lp: "last p AND 0x80 \<noteq> 0" by simp
    from Cons.prems(3) False show ?thesis
      by (auto simp: Let_def split: if_splits dest!: Cons.IH [OF False lp])
  qed
qed

lemma obj2txt_loop_truncated:
  "p \<noteq> [] \<Longrightarrow> last p AND 0x80 \<noteq> 0 \<Longrightarrow> fst (obj2txt_loop sv p first bl ot) = False"
proof (induction "length p" arbitrary: p first bl ot rule: less_induct)
  case less
  show ?case
  proof (cases "subid_loop sv p 0 False bl")
    case None
    with less.prems show ?thesis by (simp add: obj2txt_loop.simps [of sv p])
  next
    case (Some r)
    obtain l u bl1 rest where r: "r = (l, u, bl1, rest)" by (cases r) auto
    from subid_loop_last [OF less.prems Some [unfolded r]] have rest: "rest \<noteq> []" "last rest AND 0x80 \<noteq> 0"
      using less.prems by auto
    from subid_loop_shorter [OF Some [unfolded r]] have sh: "length rest < length p" .
    show ?thesis
      using less.prems(1) Some r less.hyps [OF sh rest]
      by (auto simp: obj2txt_loop.simps [of sv p] split: option.splits)
  qed
qed

lemma obj2txt_name_None:
  "no_name \<or> fst (OBJ_obj2nid e sv s (Some a)) = NID_undef \<Longrightarrow> fst (obj2txt_name e sv s a no_name) = None"
  by (auto simp: obj2txt_name_def Let_def split: prod.splits)

lemma obj2txt_dotted_rejects:
  assumes "data a = Some d" and "length d > 586 \<or> (d \<noteq> [] \<and> last d AND 0x80 \<noteq> 0)"
  shows "fst (obj2txt_dotted sv m null buf_len a) = - 1"
proof (cases "length d > 586")
  case True
  with assms(1) show ?thesis
    by (simp add: obj2txt_dotted_def olength_def)
next
  case False
  with assms(2) have "d \<noteq> []" "last d AND 0x80 \<noteq> 0" by auto
  from obj2txt_loop_truncated [OF this]
  obtain ot' where "obj2txt_loop sv d True 0 \<lparr>o_mem = m, o_null = null, o_pos = 0, o_len = buf_len, o_n = 0\<rparr>
      = (False, ot')"
    by (metis prod.collapse)
  with assms(1) False show ?thesis
    by (simp add: obj2txt_dotted_def olength_def bytes_of_def)
qed

lemma obj2txt_too_long_mem:
  "olength a > 586 \<Longrightarrow> obj2txt_dotted sv m null buf_len a = (- 1, m)"
  by (simp add: obj2txt_dotted_def)

lemma OBJ_obj2txt_dotted_path:
  assumes "data a \<noteq> None" and "fst (obj2txt_name e sv s a no_name) = None"
  shows "OBJ_obj2txt e sv s buf buf_len (Some a) no_name
         = (fst (obj2txt_dotted sv (start_mem buf buf_len) (buf = None) buf_len a),
            snd (obj2txt_dotted sv (start_mem buf buf_len) (buf = None) buf_len a),
            snd (obj2txt_name e sv s a no_name))"
  using assms
  by (cases "obj2txt_name e sv s a no_name") (auto simp: OBJ_obj2txt_def Let_def case_prod_beta)

text \<open>
  C4. For an object with data \<open>d\<close> that is printed in dotted form (\<^verbatim>\<open>no_name\<close> is set,
  or the object resolves to no NID), \<^verbatim>\<open>OBJ_obj2txt\<close> returns -1, never a length, when
  \<open>d\<close> has more than 586 octets and when the last octet of \<open>d\<close> has the continuation
  bit \<open>0x80\<close> set. In the first case nothing but the terminator at offset 0 was written
  to the buffer. (In the second case the arcs decoded before the last sub-identifier
  are in the buffer; the return value is the error value all the same.)
\<close>

theorem obj2txt_rejects:
  assumes "data a = Some d"
      and "no_name \<or> fst (OBJ_obj2nid e sv s (Some a)) = NID_undef"
      and "length d > 586 \<or> (d \<noteq> [] \<and> last d AND 0x80 \<noteq> 0)"
  shows "fst (OBJ_obj2txt e sv s buf buf_len (Some a) no_name) = - 1
       \<and> (length d > 586 \<longrightarrow>
            fst (snd (OBJ_obj2txt e sv s buf buf_len (Some a) no_name)) = start_mem buf buf_len)"
proof -
  have "OBJ_obj2txt e sv s buf buf_len (Some a) no_name
         = (fst (obj2txt_dotted sv (start_mem buf buf_len) (buf = None) buf_len a),
            snd (obj2txt_dotted sv (start_mem buf buf_len) (buf = None) buf_len a),
            snd (obj2txt_name e sv s a no_name))"
    using assms(1) obj2txt_name_None [OF assms(2)] by (intro OBJ_obj2txt_dotted_path) auto
  then show ?thesis
    using obj2txt_dotted_rejects [OF assms(1,3)] assms(1)
    by (simp add: obj2txt_too_long_mem olength_def)
qed

theorem obj2txt_rejects_witness:
  "fst (OBJ_obj2txt env0 sv0 st0 None 0 (Some (probe\<lparr>data := Some (replicate 587 1)\<rparr>)) True) = - 1
   \<and> fst (OBJ_obj2txt env0 sv0 st0 None 0 (Some (probe\<lparr>data := Some [0x2A, 0x86]\<rparr>)) True) = - 1"
  using obj2txt_rejects [of "probe\<lparr>data := Some (replicate 587 1)\<rparr>" "replicate 587 1" True env0 sv0 st0 None 0]
    obj2txt_rejects [of "probe\<lparr>data := Some [0x2A, 0x86]\<rparr>" "[0x2A, 0x86]" True env0 sv0 st0 None 0]
  by simp

subsection \<open>Roll-back of a failed registration\<close>

lemmas add_defs = OBJ_create_def tmpoid_of_def OBJ_txt2obj_def txt2obj_dotted_def d2i_ASN1_OBJECT_def
  ASN1_object_size_def ossl_obj_write_lock_def ossl_obj_read_lock_def ossl_obj_obj2nid_def
  OBJ_bsearch_obj_def obj_cmp_def OBJ_sn2nid_def OBJ_ln2nid_def OBJ_bsearch_sn_def OBJ_bsearch_ln_def
  sn_cmp_def ln_cmp_def name_of_def bytes_of_def olength_def obj_new_nid_unlocked_def
  ossl_obj_add_object_def wanted_cells_def OBJ_dup_def err2_def ASN1_OBJECT_free_def OPENSSL_free_def
  lh_ADDED_OBJ_retrieve_def lh_ADDED_OBJ_insert_def matches_def key_of_cell_def obj_of_cell_def
  added_obj_cmp_def set_type_def the_table_def ERR_raise_def DYNAMIC_BITS_def
  ASN1_OBJECT_FLAG_DYNAMIC_def ASN1_OBJECT_FLAG_DYNAMIC_STRINGS_def ASN1_OBJECT_FLAG_DYNAMIC_DATA_def
  ASN1_OBJECT_new_def probe_def

text \<open>
  C1 (the code against it). A registration with an OID and a short name but no long
  name, on the empty registry, whose insert of the NID record fails: the roll-back
  loop counts down from \<^verbatim>\<open>ADDED_NID\<close> and reaches the long-name slot, whose cell
  \<^verbatim>\<open>ao[ADDED_LNAME]\<close> is \<^verbatim>\<open>NULL\<close> (and whose \<^verbatim>\<open>aop[ADDED_LNAME]\<close> was never
  assigned). \<^verbatim>\<open>lh_ADDED_OBJ_delete\<close> is called with that \<^verbatim>\<open>NULL\<close>, and the hash function
  \<^verbatim>\<open>added_obj_hash\<close> reads through it: the call does not return a failure, and the
  records inserted before are not removed.
\<close>

theorem register_rollback_null_dereference:
  "OBJ_create env0 (sv0\<lparr>insert_ok := (\<lambda>i. i \<noteq> ADDED_NID)\<rparr>) st0 (Some ''1.2.3'') (Some ''x'') None
     = Inl NULL_DEREFERENCE"
  by (simp add: add_defs tag_defs env0_def sv0_def st0_def Let_def ossl_bsearch.simps
        insert_loop.simps rollback.simps memcmp_eq_0)

text \<open>
  With all four records present the same failure is rolled back: the table is empty
  again, the cells and the copy are freed, and only the NID counter, the allocator and
  the error queue have moved.
\<close>

lemma register_rollback_complete:
  "OBJ_create env0 (sv0\<lparr>insert_ok := (\<lambda>i. i \<noteq> ADDED_NID)\<rparr>) st0 (Some ''1.2.3'') (Some ''x'') (Some ''y'')
     = Inr (0, st0\<lparr>brk := 5, added := Some [], new_nid := 4, errors := [ERR_R_CRYPTO_LIB],
                    freed_objects := [0], freed_cells := [2, 3, 4, 1]\<rparr>)"
  by (simp add: add_defs tag_defs env0_def sv0_def st0_def Let_def ossl_bsearch.simps
        insert_loop.simps rollback.simps memcmp_eq_0)

text \<open>The state \<open>st1\<close> is what a successful registration on \<open>st0\<close> produces.\<close>

lemma register_success:
  "OBJ_create env0 sv0 st0 (Some ''1.2.3'') (Some ''x'') (Some ''y'') = Inr (3, st1)"
  by (simp add: add_defs tag_defs env0_def sv0_def st0_def st1_def Let_def ossl_bsearch.simps
        insert_loop.simps rollback.simps memcmp_eq_0 fun_eq_iff)

subsection \<open>Teardown\<close>

lemma zeroed_idem [simp]: "zeroed (zeroed ob) = zeroed ob"
  by (simp add: zeroed_def)

lemma cleanup1_pass:
  assumes "\<forall>p \<in> set ps. \<exists>c. cells s p = Some c \<and> ao_obj c = tgt p \<and> objects s (tgt p) \<noteq> None"
  shows "lh_ADDED_OBJ_doall cleanup1_doall ps s
         = Inr (s\<lparr>objects := (\<lambda>q. if q \<in> tgt ` set ps then map_option zeroed (objects s q)
                                     else objects s q)\<rparr>)"
  using assms
proof (induction ps arbitrary: s)
  case Nil
  then show ?case by simp
next
  case (Cons p ps)
  from Cons.prems obtain c ob where c: "cells s p = Some c" "ao_obj c = tgt p" "objects s (tgt p) = Some ob"
    by auto
  define s' where "s' = s\<lparr>objects := (objects s)(tgt p \<mapsto> zeroed ob)\<rparr>"
  have step: "cleanup1_doall p s = Inr s'"
    using c by (simp add: cleanup1_doall_def obj_of_cell_def s'_def zeroed_def)
  have pre: "\<forall>p \<in> set ps. \<exists>c. cells s' p = Some c \<and> ao_obj c = tgt p \<and> objects s' (tgt p) \<noteq> None"
    using Cons.prems by (auto simp: s'_def)
  have "(\<lambda>q. if q \<in> tgt ` set ps then map_option zeroed (objects s' q) else objects s' q)
        = (\<lambda>q. if q \<in> tgt ` set (p # ps) then map_option zeroed (objects s q) else objects s q)"
    using c by (auto simp: s'_def fun_eq_iff)
  then show ?case
    using step Cons.IH [OF pre] by (simp add: s'_def)
qed

lemma cleanup2_pass:
  assumes "\<forall>p \<in> set ps. \<exists>c. cells s p = Some c \<and> ao_obj c = tgt p \<and> objects s (tgt p) \<noteq> None"
  shows "lh_ADDED_OBJ_doall cleanup2_doall ps s
         = Inr (s\<lparr>objects := (\<lambda>q. map_option (\<lambda>ob. ob\<lparr>nid := nid ob + int (count_list (map tgt ps) q)\<rparr>)
                                     (objects s q))\<rparr>)"
  using assms
proof (induction ps arbitrary: s)
  case Nil
  have "(\<lambda>q. map_option (\<lambda>ob. ob\<lparr>nid := nid ob\<rparr>) (objects s q)) = objects s"
    by (simp add: fun_eq_iff option.map_ident)
  then show ?case by simp
next
  case (Cons p ps)
  from Cons.prems obtain c ob where c: "cells s p = Some c" "ao_obj c = tgt p" "objects s (tgt p) = Some ob"
    by auto
  define s' where "s' = s\<lparr>objects := (objects s)(tgt p \<mapsto> ob\<lparr>nid := nid ob + 1\<rparr>)\<rparr>"
  have step: "cleanup2_doall p s = Inr s'"
    using c by (simp add: cleanup2_doall_def obj_of_cell_def s'_def)
  have pre: "\<forall>p \<in> set ps. \<exists>c. cells s' p = Some c \<and> ao_obj c = tgt p \<and> objects s' (tgt p) \<noteq> None"
    using Cons.prems by (auto simp: s'_def)
  have "(\<lambda>q. map_option (\<lambda>ob. ob\<lparr>nid := nid ob + int (count_list (map tgt ps) q)\<rparr>) (objects s' q))
        = (\<lambda>q. map_option (\<lambda>ob. ob\<lparr>nid := nid ob + int (count_list (map tgt (p # ps)) q)\<rparr>) (objects s q))"
    using c by (auto simp: s'_def fun_eq_iff option.map_comp comp_def intro!: option.map_cong)
  then show ?case
    using step Cons.IH [OF pre] by (simp add: s'_def)
qed

lemma cleanup3_pass:
  assumes "distinct ps"
      and "\<forall>p \<in> set ps. \<exists>c. cells s p = Some c \<and> ao_obj c = tgt p"
      and "\<forall>q \<in> tgt ` set ps. \<exists>ob. objects s q = Some ob \<and> nid ob = int (count_list (map tgt ps) q)
              \<and> flags ob AND ASN1_OBJECT_FLAG_DYNAMIC \<noteq> 0"
  shows "\<exists>F. lh_ADDED_OBJ_doall cleanup3_doall ps s
              = Inr (s\<lparr>objects := (\<lambda>q. if q \<in> tgt ` set ps then None else objects s q),
                        cells := (\<lambda>p. if p \<in> set ps then None else cells s p),
                        freed_objects := freed_objects s @ F,
                        freed_cells := freed_cells s @ ps\<rparr>)
            \<and> distinct F \<and> set F = tgt ` set ps"
  using assms
proof (induction ps arbitrary: s)
  case Nil
  have "lh_ADDED_OBJ_doall cleanup3_doall [] s
        = Inr (s\<lparr>objects := (\<lambda>q. if q \<in> tgt ` set [] then None else objects s q),
                   cells := (\<lambda>p. if p \<in> set [] then None else cells s p),
                   freed_objects := freed_objects s @ [],
                   freed_cells := freed_cells s @ []\<rparr>)"
    by simp
  then show ?case by (intro exI [of _ "[]"]) simp
next
  case (Cons p ps)
  from Cons.prems obtain c ob where c: "cells s p = Some c" "ao_obj c = tgt p"
      "objects s (tgt p) = Some ob" "nid ob = int (count_list (map tgt (p # ps)) (tgt p))"
      "flags ob AND ASN1_OBJECT_FLAG_DYNAMIC \<noteq> 0"
    by force
  let ?k = "count_list (map tgt ps) (tgt p)"
  have nid1: "nid ob - 1 = int ?k" using c(4) by simp
  have k0: "?k = 0 \<longleftrightarrow> tgt p \<notin> tgt ` set ps"
    by (simp add: count_list_0_iff)
  define Fp where "Fp = (if ?k = 0 then [tgt p] else [])"
  define s' where "s' = s\<lparr>objects := (if ?k = 0 then (objects s)(tgt p := None)
                                          else (objects s)(tgt p \<mapsto> ob\<lparr>nid := int ?k\<rparr>)),
                          cells := (cells s)(p := None),
                          freed_objects := freed_objects s @ Fp,
                          freed_cells := freed_cells s @ [p]\<rparr>"
  have step: "cleanup3_doall p s = Inr s'"
    using c nid1
    by (simp add: cleanup3_doall_def obj_of_cell_def s'_def Fp_def Let_def ASN1_OBJECT_free_def
          OPENSSL_free_def)
  have d: "distinct ps" "p \<notin> set ps" using Cons.prems(1) by auto
  have pre2: "\<forall>p' \<in> set ps. \<exists>c. cells s' p' = Some c \<and> ao_obj c = tgt p'"
    using Cons.prems(2) d by (auto simp: s'_def)
  have pre3: "\<forall>q \<in> tgt ` set ps. \<exists>ob. objects s' q = Some ob \<and> nid ob = int (count_list (map tgt ps) q)
              \<and> flags ob AND ASN1_OBJECT_FLAG_DYNAMIC \<noteq> 0"
  proof
    fix q assume q: "q \<in> tgt ` set ps"
    with Cons.prems(3) obtain ob' where ob': "objects s q = Some ob'"
        "nid ob' = int (count_list (map tgt (p # ps)) q)" "flags ob' AND ASN1_OBJECT_FLAG_DYNAMIC \<noteq> 0"
      by force
    show "\<exists>ob. objects s' q = Some ob \<and> nid ob = int (count_list (map tgt ps) q)
              \<and> flags ob AND ASN1_OBJECT_FLAG_DYNAMIC \<noteq> 0"
    proof (cases "q = tgt p")
      case True
      with q k0 have "?k \<noteq> 0" by auto
      with True c show ?thesis by (simp add: s'_def)
    next
      case False
      with ob' show ?thesis by (simp add: s'_def)
    qed
  qed
  from Cons.IH [OF d(1) pre2 pre3] obtain F where F:
    "lh_ADDED_OBJ_doall cleanup3_doall ps s'
       = Inr (s'\<lparr>objects := (\<lambda>q. if q \<in> tgt ` set ps then None else objects s' q),
                  cells := (\<lambda>p. if p \<in> set ps then None else cells s' p),
                  freed_objects := freed_objects s' @ F,
                  freed_cells := freed_cells s' @ ps\<rparr>)"
    "distinct F" "set F = tgt ` set ps"
    by blast
  have o: "(\<lambda>q. if q \<in> tgt ` set ps then None else objects s' q)
           = (\<lambda>q. if q \<in> tgt ` set (p # ps) then None else objects s q)"
    using k0 by (auto simp: s'_def fun_eq_iff)
  have ce: "(\<lambda>p'. if p' \<in> set ps then None else cells s' p')
           = (\<lambda>p'. if p' \<in> set (p # ps) then None else cells s p')"
    by (auto simp: s'_def fun_eq_iff)
  have "lh_ADDED_OBJ_doall cleanup3_doall (p # ps) s
        = Inr (s\<lparr>objects := (\<lambda>q. if q \<in> tgt ` set (p # ps) then None else objects s q),
                  cells := (\<lambda>p'. if p' \<in> set (p # ps) then None else cells s p'),
                  freed_objects := freed_objects s @ (Fp @ F),
                  freed_cells := freed_cells s @ (p # ps)\<rparr>)"
    using step F(1) unfolding o ce by (simp add: s'_def)
  moreover have "distinct (Fp @ F)" "set (Fp @ F) = tgt ` set (p # ps)"
    using F(2,3) k0 by (auto simp: Fp_def)
  ultimately show ?case by blast
qed


lemma refcount_count:
  assumes "\<forall>p \<in> set ps. \<exists>c. cells s p = Some c \<and> ao_obj c = tgt p"
  shows "refcount s ps q = count_list (map tgt ps) q"
  using assms by (induction ps) (auto simp: refcount_def)

lemma dynamic_bit_set: "(f OR DYNAMIC_BITS) AND ASN1_OBJECT_FLAG_DYNAMIC \<noteq> 0"
proof -
  have b: "bit ((f OR DYNAMIC_BITS) AND ASN1_OBJECT_FLAG_DYNAMIC) 0"
    by (simp add: bit_simps DYNAMIC_BITS_def ASN1_OBJECT_FLAG_DYNAMIC_def
        ASN1_OBJECT_FLAG_DYNAMIC_STRINGS_def ASN1_OBJECT_FLAG_DYNAMIC_DATA_def)
  show ?thesis
  proof
    assume "(f OR DYNAMIC_BITS) AND ASN1_OBJECT_FLAG_DYNAMIC = 0"
    with b have "bit (0::int) 0" by simp
    then show False by simp
  qed
qed

text \<open>
  C8. Let the table hold distinct cells that all point to live objects, each object
  being pointed to by at most four cells (the invariant I4 of the spec). Then the three
  passes of \<^verbatim>\<open>ossl_obj_cleanup_int\<close> run without touching freed memory; after the
  zeroing and the incrementing pass the \<^verbatim>\<open>nid\<close> of every object that a cell points to
  is the number of cells pointing to it, between 1 and 4; the third pass, which frees
  an object when the decrement makes its count 0, frees every referenced object
  exactly once (the objects freed are a list \<open>F\<close> without repetition whose elements are
  the referenced objects, and those objects are gone from the heap), frees every cell
  of the table, and leaves the objects that no cell points to as they were.
\<close>

theorem cleanup_refcount:
  assumes tab: "added s = Some tab" and dist: "distinct tab"
      and heap: "\<forall>p \<in> set tab. \<exists>c. cells s p = Some c \<and> objects s (ao_obj c) \<noteq> None"
      and I4: "\<forall>q. refcount s tab q \<le> 4"
  shows "\<exists>s1 s2 s3 F.
           lh_ADDED_OBJ_doall cleanup1_doall tab s = Inr s1
         \<and> lh_ADDED_OBJ_doall cleanup2_doall tab s1 = Inr s2
         \<and> (\<forall>p \<in> set tab. \<exists>c ob. cells s2 p = Some c \<and> objects s2 (ao_obj c) = Some ob
                \<and> nid ob = int (refcount s tab (ao_obj c)) \<and> 1 \<le> nid ob \<and> nid ob \<le> 4)
         \<and> lh_ADDED_OBJ_doall cleanup3_doall tab s2 = Inr s3
         \<and> ossl_obj_cleanup_int s = Inr (s3\<lparr>added := None\<rparr>)
         \<and> freed_cells s3 = freed_cells s @ tab
         \<and> (\<forall>p \<in> set tab. cells s3 p = None)
         \<and> freed_objects s3 = freed_objects s @ F \<and> distinct F
         \<and> set F = {q. 0 < refcount s tab q}
         \<and> (\<forall>q. objects s3 q = (if 0 < refcount s tab q then None else objects s q))"
proof -
  define tgt where "tgt p = ao_obj (the (cells s p))" for p
  have h0: "\<forall>p \<in> set tab. \<exists>c. cells s p = Some c \<and> ao_obj c = tgt p \<and> objects s (tgt p) \<noteq> None"
    using heap by (auto simp: tgt_def)
  then have h0': "\<forall>p \<in> set tab. \<exists>c. cells s p = Some c \<and> ao_obj c = tgt p"
    by blast
  have rc: "refcount s tab q = count_list (map tgt tab) q" for q
    by (rule refcount_count [OF h0'])
  have pos: "0 < refcount s tab q \<longleftrightarrow> q \<in> tgt ` set tab" for q
    using count_list_0_iff [of "map tgt tab" q] by (auto simp: rc)
  define s1 where "s1 = s\<lparr>objects := (\<lambda>q. if q \<in> tgt ` set tab then map_option zeroed (objects s q)
                                             else objects s q)\<rparr>"
  have p1: "lh_ADDED_OBJ_doall cleanup1_doall tab s = Inr s1"
    unfolding s1_def by (rule cleanup1_pass [OF h0])
  have h1: "\<forall>p \<in> set tab. \<exists>c. cells s1 p = Some c \<and> ao_obj c = tgt p \<and> objects s1 (tgt p) \<noteq> None"
    using h0 by (auto simp: s1_def)
  define s2 where "s2 = s1\<lparr>objects := (\<lambda>q. map_option (\<lambda>ob. ob\<lparr>nid := nid ob + int (count_list (map tgt tab) q)\<rparr>)
                                             (objects s1 q))\<rparr>"
  have p2: "lh_ADDED_OBJ_doall cleanup2_doall tab s1 = Inr s2"
    unfolding s2_def by (rule cleanup2_pass [OF h1])
  have counts: "\<exists>ob. objects s2 q = Some ob \<and> nid ob = int (refcount s tab q)
                  \<and> flags ob AND ASN1_OBJECT_FLAG_DYNAMIC \<noteq> 0" if "q \<in> tgt ` set tab" for q
  proof -
    from that h0 obtain ob where "objects s q = Some ob" by auto
    with that show ?thesis
      by (simp add: s2_def s1_def zeroed_def rc dynamic_bit_set)
  qed
  have c2: "cells s2 = cells s" by (simp add: s2_def s1_def)
  have after2: "\<forall>p \<in> set tab. \<exists>c ob. cells s2 p = Some c \<and> objects s2 (ao_obj c) = Some ob
                \<and> nid ob = int (refcount s tab (ao_obj c)) \<and> 1 \<le> nid ob \<and> nid ob \<le> 4"
  proof
    fix p assume p: "p \<in> set tab"
    with h0' obtain c where c: "cells s p = Some c" "ao_obj c = tgt p" by auto
    from p have "tgt p \<in> tgt ` set tab" by simp
    from counts [OF this] obtain ob where ob: "objects s2 (tgt p) = Some ob"
      "nid ob = int (refcount s tab (tgt p))" by auto
    from p have "0 < refcount s tab (tgt p)" by (simp add: pos)
    with ob c I4 [rule_format, of "tgt p"]
    show "\<exists>c ob. cells s2 p = Some c \<and> objects s2 (ao_obj c) = Some ob
                \<and> nid ob = int (refcount s tab (ao_obj c)) \<and> 1 \<le> nid ob \<and> nid ob \<le> 4"
      by (auto simp: c2)
  qed
  have h2: "\<forall>p \<in> set tab. \<exists>c. cells s2 p = Some c \<and> ao_obj c = tgt p"
    using h0' by (simp add: c2)
  have h3: "\<forall>q \<in> tgt ` set tab. \<exists>ob. objects s2 q = Some ob \<and> nid ob = int (count_list (map tgt tab) q)
              \<and> flags ob AND ASN1_OBJECT_FLAG_DYNAMIC \<noteq> 0"
    using counts by (simp add: rc)
  from cleanup3_pass [OF dist h2 h3] obtain F where F:
    "lh_ADDED_OBJ_doall cleanup3_doall tab s2
       = Inr (s2\<lparr>objects := (\<lambda>q. if q \<in> tgt ` set tab then None else objects s2 q),
                  cells := (\<lambda>p. if p \<in> set tab then None else cells s2 p),
                  freed_objects := freed_objects s2 @ F,
                  freed_cells := freed_cells s2 @ tab\<rparr>)"
    "distinct F" "set F = tgt ` set tab"
    by blast
  define s3 where "s3 = s2\<lparr>objects := (\<lambda>q. if q \<in> tgt ` set tab then None else objects s2 q),
                  cells := (\<lambda>p. if p \<in> set tab then None else cells s2 p),
                  freed_objects := freed_objects s2 @ F,
                  freed_cells := freed_cells s2 @ tab\<rparr>"
  have p3: "lh_ADDED_OBJ_doall cleanup3_doall tab s2 = Inr s3"
    using F(1) by (simp add: s3_def)
  have all: "ossl_obj_cleanup_int s = Inr (s3\<lparr>added := None\<rparr>)"
    using tab p1 p2 p3 by (simp add: ossl_obj_cleanup_int_def)
  have fc: "freed_cells s3 = freed_cells s @ tab" "\<forall>p \<in> set tab. cells s3 p = None"
    "freed_objects s3 = freed_objects s @ F"
    by (simp_all add: s3_def s2_def s1_def)
  have sF: "set F = {q. 0 < refcount s tab q}"
    using F(3) pos by auto
  have ob3: "\<forall>q. objects s3 q = (if 0 < refcount s tab q then None else objects s q)"
    unfolding pos by (auto simp: s3_def s2_def s1_def rc option.map_ident)
  show ?thesis
    using p1 p2 after2 p3 all fc F(2) sF ob3 by blast
qed

lemma refcount_st1: "refcount st1 [2, 3, 4, Suc 0] q = (if q = 0 then 4 else 0)"
  by (simp add: refcount_def st1_def)

theorem cleanup_refcount_witness:
  "\<exists>s1 s2 s3 F.
     lh_ADDED_OBJ_doall cleanup1_doall [2, 3, 4, 1] st1 = Inr s1
   \<and> lh_ADDED_OBJ_doall cleanup2_doall [2, 3, 4, 1] s1 = Inr s2
   \<and> nid (the (objects s2 0)) = 4
   \<and> lh_ADDED_OBJ_doall cleanup3_doall [2, 3, 4, 1] s2 = Inr s3
   \<and> ossl_obj_cleanup_int st1 = Inr (s3\<lparr>added := None\<rparr>)
   \<and> freed_cells s3 = [2, 3, 4, 1] \<and> freed_objects s3 = F \<and> F = [0] \<and> objects s3 0 = None"
proof -
  have h: "added st1 = Some [2, 3, 4, 1]" "distinct [2, 3, 4, 1 :: nat]"
    "\<forall>p \<in> set [2, 3, 4, 1]. \<exists>c. cells st1 p = Some c \<and> objects st1 (ao_obj c) \<noteq> None"
    "\<forall>q. refcount st1 [2, 3, 4, 1] q \<le> 4"
    by (simp_all add: refcount_st1) (simp_all add: st1_def)
  from cleanup_refcount [OF h] obtain s1 s2 s3 F where r:
    "lh_ADDED_OBJ_doall cleanup1_doall [2, 3, 4, 1] st1 = Inr s1"
    "lh_ADDED_OBJ_doall cleanup2_doall [2, 3, 4, 1] s1 = Inr s2"
    "\<forall>p \<in> set [2, 3, 4, 1]. \<exists>c ob. cells s2 p = Some c \<and> objects s2 (ao_obj c) = Some ob
                \<and> nid ob = int (refcount st1 [2, 3, 4, 1] (ao_obj c)) \<and> 1 \<le> nid ob \<and> nid ob \<le> 4"
    "lh_ADDED_OBJ_doall cleanup3_doall [2, 3, 4, 1] s2 = Inr s3"
    "ossl_obj_cleanup_int st1 = Inr (s3\<lparr>added := None\<rparr>)"
    "freed_cells s3 = freed_cells st1 @ [2, 3, 4, 1]"
    "freed_objects s3 = freed_objects st1 @ F" "distinct F"
    "set F = {q. 0 < refcount st1 [2, 3, 4, 1] q}"
    "\<forall>q. objects s3 q = (if 0 < refcount st1 [2, 3, 4, 1] q then None else objects st1 q)"
    by blast
  from r(9) have "set F = {0}" by (auto simp: refcount_st1)
  with r(8) have F: "F = [0]"
    by (metis distinct.simps(2) empty_iff insert_iff list.exhaust list.set(1) list.simps(15) set_empty2 singletonD)
  have c2: "cells s2 2 = Some \<lparr>ao_type = 0, ao_obj = 0\<rparr>"
    using r(1,2) by (auto simp: st1_def cleanup1_doall_def cleanup2_doall_def obj_of_cell_def)
  from r(3) c2 have n: "nid (the (objects s2 0)) = 4"
    by (auto simp: refcount_st1)
  show ?thesis
    using r(1,2,4,5,6,7,10) F n by (intro exI [of _ s1] exI [of _ s2] exI [of _ s3] exI [of _ F])
      (simp add: refcount_st1, simp add: st1_def)
qed

subsection \<open>Bulk loading\<close>

lemma ln2nid_state: "\<exists>es. snd (OBJ_ln2nid e sv s str) = s\<lparr>errors := errors s @ es\<rparr>"
proof (cases "snd (OBJ_ln2nid e sv s str) = s")
  case True
  then have "snd (OBJ_ln2nid e sv s str) = s\<lparr>errors := errors s @ []\<rparr>" by simp
  then show ?thesis by blast
next
  case False
  then have "snd (OBJ_ln2nid e sv s str) = s\<lparr>errors := errors s @ [ERR_R_UNABLE_TO_GET_READ_LOCK]\<rparr>"
    by (auto simp: OBJ_ln2nid_def ERR_raise_def split: option.splits if_splits)
  then show ?thesis by blast
qed

text \<open>What a call may change besides the error queue and the NID counter: nothing.\<close>

lemma same_heap_refl [simp]: "same_heap s s"
  by (simp add: same_heap_def)

lemma same_heap_trans: "same_heap s s' \<Longrightarrow> same_heap s' s'' \<Longrightarrow> same_heap s s''"
  by (simp add: same_heap_def)

lemma set_type_heap [simp]: "objects (set_type a t s) = objects s" "brk (set_type a t s) = brk s"
  by (simp_all add: set_type_def split: option.splits)

lemma rollback_heap:
  "rollback ao aop i s = Inr s' \<Longrightarrow> same_heap s s'"
proof (induction ao aop i s rule: rollback.induct)
  case (1 ao aop i s)
  show ?case
  proof (cases "i > ADDED_DATA")
    case False
    with "1.prems" show ?thesis by (simp add: rollback.simps [of ao aop i s])
  next
    case True
    with "1.prems" obtain c k where c: "ao (i - 1) = Some c" "key_of_cell s c = Some k"
      and r: "rollback ao aop (i - 1)
               (set_type (aop (i - 1)) (i - 1) (s\<lparr>added := Some (lh_ADDED_OBJ_delete s (the_table s) k)\<rparr>)) = Inr s'"
      by (auto simp: rollback.simps [of ao aop i s] Let_def split: option.splits)
    from "1.IH" [OF True refl c r] show ?thesis
      by (simp add: same_heap_def)
  qed
qed

lemma insert_loop_heap:
  "insert_loop sv ao aop ob i s = Inr (b, s') \<Longrightarrow> same_heap s s'"
proof (induction "nat (4 - i)" arbitrary: i aop s rule: less_induct)
  case less
  show ?case
  proof (cases "i \<le> ADDED_NID")
    case False
    with less.prems show ?thesis by (simp add: insert_loop.simps [of sv ao aop ob i s])
  next
    case le: True
    then have m: "nat (4 - (i + 1)) < nat (4 - i)" by (simp add: ADDED_NID_def)
    show ?thesis
    proof (cases "ao i")
      case None
      with le less.prems have "insert_loop sv ao aop ob (i + 1) s = Inr (b, s')"
        by (simp add: insert_loop.simps [of sv ao aop ob i s])
      from less.hyps [OF m this] show ?thesis .
    next
      case (Some c)
      define s1 where "s1 = s\<lparr>cells := (cells s)(c \<mapsto> \<lparr>ao_type = i, ao_obj = ob\<rparr>)\<rparr>"
      from le Some less.prems obtain k where k: "key_of_cell s1 c = Some k"
        by (auto simp: insert_loop.simps [of sv ao aop ob i s] Let_def s1_def split: option.splits)
      define prev where "prev = lh_ADDED_OBJ_retrieve s1 (the_table s1) k"
      define s2 where "s2 = set_type prev (- 1) s1"
      obtain tab err where ins: "lh_ADDED_OBJ_insert (insert_ok sv i) s2 (the_table s2) k c = (tab, err)"
        by (cases "lh_ADDED_OBJ_insert (insert_ok sv i) s2 (the_table s2) k c") auto
      define s3 where "s3 = s2\<lparr>added := Some tab\<rparr>"
      have h3: "same_heap s s3"
        by (simp add: same_heap_def s3_def s2_def s1_def)
      have unf: "insert_loop sv ao aop ob i s
                 = (if err then
                      (case rollback ao (aop(i := prev)) i (set_type prev i s3) of
                         Inl x \<Rightarrow> Inl x
                       | Inr s4 \<Rightarrow> Inr (False, ERR_raise ERR_R_CRYPTO_LIB s4))
                    else insert_loop sv ao (aop(i := prev)) ob (i + 1) s3)"
        using le Some k ins
        by (simp add: insert_loop.simps [of sv ao aop ob i s] Let_def s1_def [symmetric]
              prev_def [symmetric] s2_def [symmetric] s3_def [symmetric])
      show ?thesis
      proof (cases err)
        case True
        with unf less.prems obtain s4 where
          "rollback ao (aop(i := prev)) i (set_type prev i s3) = Inr s4" "s' = ERR_raise ERR_R_CRYPTO_LIB s4"
          by (auto split: sum.splits)
        with rollback_heap [OF this(1)] h3 show ?thesis
          by (simp add: same_heap_def ERR_raise_def)
      next
        case False
        with unf less.prems have "insert_loop sv ao (aop(i := prev)) ob (i + 1) s3 = Inr (b, s')"
          by simp
        from less.hyps [OF m this] h3 show ?thesis
          by (rule same_heap_trans [rotated])
      qed
    qed
  qed
qed


lemma alloc_cells_heap:
  "alloc_cells sv xs ao s = (ok, ao', s') \<Longrightarrow> objects s' = objects s \<and> brk s \<le> brk s'"
proof (induction xs arbitrary: ao s)
  case Nil
  then show ?case by simp
next
  case (Cons x xs)
  obtain i wanted where x: "x = (i, wanted)" by (cases x) auto
  from Cons.prems show ?case
    unfolding x by (auto split: if_splits dest!: Cons.IH)
qed

lemma OPENSSL_free_heap [simp]:
  "objects (OPENSSL_free a s) = objects s" "brk (OPENSSL_free a s) = brk s"
  by (simp_all add: OPENSSL_free_def split: option.splits)

lemma err2_heap:
  assumes "objects s ob = Some v" and "flags v AND ASN1_OBJECT_FLAG_DYNAMIC \<noteq> 0"
  shows "fst (err2 ao ob s) = 0" "objects (snd (err2 ao ob s)) = (objects s)(ob := None)"
    "brk (snd (err2 ao ob s)) = brk s"
  using assms by (simp_all add: err2_def ASN1_OBJECT_free_def NID_undef_def)

lemma add_object_heap:
  assumes "ossl_obj_add_object sv s obj lock = Inr (r, s')" and "dom (objects s) \<subseteq> {..<brk s}"
      and "nid obj \<noteq> 0"
  shows "dom (objects s') = (if r \<noteq> 0 then insert (brk s) (dom (objects s)) else dom (objects s))
       \<and> dom (objects s') \<subseteq> {..<brk s'}"
proof (cases "dup_ok sv")
  case False
  with assms show ?thesis
    by (simp add: ossl_obj_add_object_def OBJ_dup_def NID_undef_def)
next
  case True
  define ob where "ob = brk s"
  define v where "v = obj\<lparr>flags := flags obj OR DYNAMIC_BITS\<rparr>"
  define s1 where "s1 = s\<lparr>objects := (objects s)(ob \<mapsto> v), brk := Suc (brk s)\<rparr>"
  have dup: "OBJ_dup sv s obj = Some (ob, s1)"
    using True by (simp add: OBJ_dup_def s1_def ob_def v_def)
  have fresh: "ob \<notin> dom (objects s)" using assms(2) by (auto simp: ob_def)
  then have none: "objects s ob = None" by auto
  obtain ok ao s2 where al: "alloc_cells sv (wanted_cells obj) (\<lambda>i. None) s1 = (ok, ao, s2)"
    by (metis prod_cases3)
  from alloc_cells_heap [OF al] have h2: "objects s2 = objects s1" "brk s1 \<le> brk s2" by auto
  have dyn: "flags v AND ASN1_OBJECT_FLAG_DYNAMIC \<noteq> 0"
    by (simp add: v_def dynamic_bit_set)
  have fail: "dom (objects (snd (err2 ao ob t))) = dom (objects s)
              \<and> dom (objects (snd (err2 ao ob t))) \<subseteq> {..<brk (snd (err2 ao ob t))}
              \<and> fst (err2 ao ob t) = 0"
    if "objects t = objects s1" "brk s1 \<le> brk t" for t
  proof -
    have "objects t ob = Some v" using that by (simp add: s1_def)
    from err2_heap [OF this dyn, of ao] that assms(2) none show ?thesis
      by (auto simp: s1_def dom_def split: if_splits)
  qed
  define nolh where "nolh \<longleftrightarrow> added s2 = None \<and> \<not> lh_new_ok sv"
  have unf: "ossl_obj_add_object sv s obj lock
    = (if \<not> ok then Inr (err2 ao ob s2)
       else if \<not> ossl_obj_write_lock sv lock
       then Inr (err2 ao ob (ERR_raise ERR_R_UNABLE_TO_GET_WRITE_LOCK s2))
       else if nolh
       then Inr (err2 ao ob (ERR_raise ERR_R_CRYPTO_LIB s2))
       else
         (case insert_loop sv ao (\<lambda>i. None) ob ADDED_DATA (s2\<lparr>added := Some (the_table s2)\<rparr>) of
            Inl x \<Rightarrow> Inl x
          | Inr (False, s3) \<Rightarrow> Inr (err2 ao ob s3)
          | Inr (True, s3) \<Rightarrow>
              (case objects s3 ob of
                 None \<Rightarrow> Inl USE_AFTER_FREE
               | Some v \<Rightarrow>
                   Inr (nid v, s3\<lparr>objects := (objects s3)(ob \<mapsto> v\<lparr>flags := flags v AND NOT DYNAMIC_BITS\<rparr>)\<rparr>))))"
    by (simp add: ossl_obj_add_object_def dup al nolh_def)
  consider (a) "\<not> ok" | (b) "ok" "\<not> ossl_obj_write_lock sv lock"
    | (c) "ok" "ossl_obj_write_lock sv lock" "nolh"
    | (d) "ok" "ossl_obj_write_lock sv lock" "\<not> nolh"
    by blast
  then show ?thesis
  proof cases
    case a
    with unf assms(1) have "(r, s') = err2 ao ob s2" by simp
    with fail [of s2] h2 show ?thesis by (metis fst_conv snd_conv)
  next
    case b
    with unf assms(1) have "(r, s') = err2 ao ob (ERR_raise ERR_R_UNABLE_TO_GET_WRITE_LOCK s2)" by simp
    with fail [of "ERR_raise ERR_R_UNABLE_TO_GET_WRITE_LOCK s2"] h2 show ?thesis
      by (simp add: ERR_raise_def) (metis fst_conv snd_conv)
  next
    case c
    with unf assms(1) have "(r, s') = err2 ao ob (ERR_raise ERR_R_CRYPTO_LIB s2)" by simp
    with fail [of "ERR_raise ERR_R_CRYPTO_LIB s2"] h2 show ?thesis
      by (simp add: ERR_raise_def) (metis fst_conv snd_conv)
  next
    case d
    with unf assms(1) obtain b s3 where
      il: "insert_loop sv ao (\<lambda>i. None) ob ADDED_DATA (s2\<lparr>added := Some (the_table s2)\<rparr>) = Inr (b, s3)"
      by (auto split: sum.splits)
    from insert_loop_heap [OF il] have h3: "objects s3 = objects s1" "brk s3 = brk s2"
      using h2 by (simp_all add: same_heap_def)
    show ?thesis
    proof (cases b)
      case False
      with d il unf assms(1) have "(r, s') = err2 ao ob s3" by simp
      with fail [of s3] h2 h3 show ?thesis by (metis fst_conv snd_conv)
    next
      case True
      have "objects s3 ob = Some v" using h3 by (simp add: s1_def)
      with True d il unf assms(1) have
        r: "r = nid v" "s' = s3\<lparr>objects := (objects s3)(ob \<mapsto> v\<lparr>flags := flags v AND NOT DYNAMIC_BITS\<rparr>)\<rparr>"
        by auto
      have "r \<noteq> 0" using r(1) assms(3) by (simp add: v_def)
      moreover have "dom (objects s') = insert ob (dom (objects s))"
        using r(2) h3 by (auto simp: s1_def)
      moreover have "dom (objects s') \<subseteq> {..<brk s'}"
        using r(2) h3 h2 assms(2) by (auto simp: s1_def ob_def)
      ultimately show ?thesis by (simp add: ob_def)
    qed
  qed
qed


lemma sn2nid_heapD: "OBJ_sn2nid e sv s x = (k, s1) \<Longrightarrow> same_heap s s1"
  using sn2nid_state [of e sv s x] by (auto simp: same_heap_def)

lemma ln2nid_heapD: "OBJ_ln2nid e sv s x = (k, s1) \<Longrightarrow> same_heap s s1"
  using ln2nid_state [of e sv s x] by (auto simp: same_heap_def)

lemma tmpoid_of_heapD: "tmpoid_of e sv s oid = (r, s1) \<Longrightarrow> same_heap s s1"
  by (auto simp: tmpoid_of_def OBJ_txt2obj_def same_heap_def ERR_raise_def
        split: option.splits prod.splits obj_ptr.splits)

lemma obj2nid_heapD: "ossl_obj_obj2nid e sv s a False = (k, s1) \<Longrightarrow> s1 = s"
  using obj2nid_unlocked_state [of e sv s a] by simp

lemma OBJ_create_outcome:
  assumes "OBJ_create e sv s oid sname lname = Inr (r, s')"
  shows "(r = 0 \<and> same_heap s s')
       \<or> (\<exists>s5 obj. same_heap s s5 \<and> nid obj \<noteq> 0 \<and> ossl_obj_add_object sv s5 obj False = Inr (r, s'))"
proof (cases "oid = None \<and> sname = None \<and> lname = None")
  case True
  with assms show ?thesis by (auto simp: OBJ_create_def same_heap_def ERR_raise_def)
next
  case False
  obtain n1 s1 where a1: "(case sname of None \<Rightarrow> (NID_undef, s) | Some x \<Rightarrow> OBJ_sn2nid e sv s x) = (n1, s1)"
    by (metis prod.collapse)
  have h1: "same_heap s s1" using a1 by (auto split: option.splits dest: sn2nid_heapD)
  obtain n2 s2 where a2: "(case lname of None \<Rightarrow> (NID_undef, s1) | Some x \<Rightarrow> OBJ_ln2nid e sv s1 x) = (n2, s2)"
    by (metis prod.collapse)
  have h2: "same_heap s s2"
    using a2 h1 by (auto split: option.splits dest: ln2nid_heapD same_heap_trans)
  obtain t s3 where a3: "tmpoid_of e sv s2 oid = (t, s3)" by (metis prod.collapse)
  have h3: "same_heap s s3" using tmpoid_of_heapD [OF a3] h2 by (rule same_heap_trans [rotated])
  obtain n3 s4 where a4: "(if oid \<noteq> None then ossl_obj_obj2nid e sv s3 t False
                           else (NID_undef, s3)) = (n3, s4)"
    by (metis prod.collapse)
  have s4: "s4 = s3" using a4 by (auto split: if_splits dest: obj2nid_heapD)
  define s5 where "s5 = s3\<lparr>new_nid := new_nid s3 + 1\<rparr>"
  have h5: "same_heap s s5" using h3 by (simp add: same_heap_def s5_def)
  define c1 where "c1 \<longleftrightarrow> sname \<noteq> None \<and> n1 \<noteq> NID_undef"
  define c2 where "c2 \<longleftrightarrow> lname \<noteq> None \<and> n2 \<noteq> NID_undef"
  define c3 where "c3 \<longleftrightarrow> oid \<noteq> None \<and> n3 \<noteq> NID_undef"
  define c0 where "c0 \<longleftrightarrow> oid = None \<and> sname = None \<and> lname = None"
  have nc0: "\<not> c0" using False by (simp add: c0_def)
  have unf0: "OBJ_create e sv s oid sname lname
             = (if c0 then Inr (0, ERR_raise ERR_R_PASSED_INVALID_ARGUMENT s)
                else if c1 then Inr (0, ERR_raise OBJ_R_OID_EXISTS s1)
                else if c2 then Inr (0, ERR_raise OBJ_R_OID_EXISTS s2)
                else (case t of
                        None \<Rightarrow> Inr (0, s3)
                      | Some tmpoid \<Rightarrow>
                          if \<not> ossl_obj_write_lock sv True
                          then Inr (0, ERR_raise ERR_R_UNABLE_TO_GET_WRITE_LOCK s3)
                          else
                            (let (n3, s4) = (if oid \<noteq> None then ossl_obj_obj2nid e sv s3 (Some tmpoid) False
                                             else (NID_undef, s3)) in
                             if oid \<noteq> None \<and> n3 \<noteq> NID_undef then Inr (0, ERR_raise OBJ_R_OID_EXISTS s4)
                             else
                               (let (k, s5) = obj_new_nid_unlocked 1 s4 in
                                if k = NID_undef then Inr (0, s5)
                                else ossl_obj_add_object sv s5 (tmpoid\<lparr>nid := k, sn := sname, ln := lname\<rparr>) False))))"
    unfolding OBJ_create_def a1 a2 a3 prod.case Let_def [of "(n1, s1)"] Let_def [of "(n2, s2)"]
      c0_def [symmetric] c1_def [symmetric] c2_def [symmetric]
    by (rule refl)
  have unf: "OBJ_create e sv s oid sname lname
             = (if c1 then Inr (0, ERR_raise OBJ_R_OID_EXISTS s1)
                else if c2 then Inr (0, ERR_raise OBJ_R_OID_EXISTS s2)
                else if t = None then Inr (0, s3)
                else if \<not> ossl_obj_write_lock sv True
                then Inr (0, ERR_raise ERR_R_UNABLE_TO_GET_WRITE_LOCK s3)
                else if c3 then Inr (0, ERR_raise OBJ_R_OID_EXISTS s3)
                else if new_nid s3 = NID_undef then Inr (0, s5)
                else ossl_obj_add_object sv s5 ((the t)\<lparr>nid := new_nid s3, sn := sname, ln := lname\<rparr>) False)"
  proof (cases t)
    case None
    with nc0 show ?thesis unfolding unf0 by simp
  next
    case (Some tmpoid)
    have a4': "(if oid \<noteq> None then ossl_obj_obj2nid e sv s3 (Some tmpoid) False else (NID_undef, s3)) = (n3, s3)"
      using a4 unfolding s4 Some .
    have "OBJ_create e sv s oid sname lname
             = (if c0 then Inr (0, ERR_raise ERR_R_PASSED_INVALID_ARGUMENT s)
                else if c1 then Inr (0, ERR_raise OBJ_R_OID_EXISTS s1)
                else if c2 then Inr (0, ERR_raise OBJ_R_OID_EXISTS s2)
                else if \<not> ossl_obj_write_lock sv True
                          then Inr (0, ERR_raise ERR_R_UNABLE_TO_GET_WRITE_LOCK s3)
                          else if c3 then Inr (0, ERR_raise OBJ_R_OID_EXISTS s3)
                             else
                               (let (k, s5) = obj_new_nid_unlocked 1 s3 in
                                if k = NID_undef then Inr (0, s5)
                                else ossl_obj_add_object sv s5 (tmpoid\<lparr>nid := k, sn := sname, ln := lname\<rparr>) False))"
      unfolding unf0 Some option.case a4' Let_def [of "(n3, s3)"] prod.case c3_def [symmetric]
      by (rule refl)
    then show ?thesis
      using nc0 Some by (simp add: obj_new_nid_unlocked_def s5_def)
  qed
  show ?thesis
  proof (cases "c1 \<or> c2 \<or> t = None \<or> \<not> ossl_obj_write_lock sv True \<or> c3 \<or> new_nid s3 = NID_undef")
    case add: False
    with unf assms have
      "ossl_obj_add_object sv s5 ((the t)\<lparr>nid := new_nid s3, sn := sname, ln := lname\<rparr>) False = Inr (r, s')"
      by auto
    moreover have "nid ((the t)\<lparr>nid := new_nid s3, sn := sname, ln := lname\<rparr>) \<noteq> 0"
      using add by (simp add: NID_undef_def)
    ultimately show ?thesis using h5 by blast
  next
    case stop: True
    have "r = 0 \<and> same_heap s s'"
      using unf assms h1 h2 h3 h5 stop
      by (auto simp: same_heap_def ERR_raise_def split: if_splits)
    then show ?thesis ..
  qed
qed

lemma OBJ_create_heap:
  assumes "OBJ_create e sv s oid sname lname = Inr (r, s')" and "dom (objects s) \<subseteq> {..<brk s}"
  shows "dom (objects s') = (if r \<noteq> 0 then insert (brk s) (dom (objects s)) else dom (objects s))
       \<and> dom (objects s') \<subseteq> {..<brk s'}"
proof -
  from OBJ_create_outcome [OF assms(1)] show ?thesis
  proof
    assume "r = 0 \<and> same_heap s s'"
    with assms(2) show ?thesis by (simp add: same_heap_def)
  next
    assume "\<exists>s5 obj. same_heap s s5 \<and> nid obj \<noteq> 0 \<and> ossl_obj_add_object sv s5 obj False = Inr (r, s')"
    then obtain s5 obj where h: "same_heap s s5" "nid obj \<noteq> 0"
        "ossl_obj_add_object sv s5 obj False = Inr (r, s')"
      by blast
    from h(1) have e: "objects s5 = objects s" "brk s5 = brk s" by (simp_all add: same_heap_def)
    from assms(2) have "dom (objects s5) \<subseteq> {..<brk s5}" by (simp add: e)
    from add_object_heap [OF h(3) this h(2)] show ?thesis unfolding e .
  qed
qed


lemma create_objects_step:
  assumes inv: "dom (objects s) \<subseteq> {..<brk s}"
  shows "(\<exists>sX. (\<forall>rest. create_objects_loop e sv (line # rest) buf l num s = Inr (num, sX))
              \<and> dom (objects sX) = dom (objects s) \<and> dom (objects sX) \<subseteq> {..<brk sX})
       \<or> (\<exists>f. \<forall>rest. create_objects_loop e sv (line # rest) buf l num s = Inl f)
       \<or> (\<exists>buf3 lp s1. (\<forall>rest. create_objects_loop e sv (line # rest) buf l num s
                                  = create_objects_loop e (\<lambda>k. sv (Suc k)) rest buf3 lp (num + 1) s1)
              \<and> dom (objects s1) = insert (brk s) (dom (objects s)) \<and> dom (objects s1) \<subseteq> {..<brk s1})"
proof -
  obtain i buf1 where g: "BIO_gets line buf = (i, buf1)" by (metis prod.collapse)
  define buf2 where "buf2 = buf1[nat (i - 1) := NUL]"
  obtain buf3 sp lp where p: "parse_line buf2 l = (buf3, sp, lp)" by (metis prod_cases3)
  define res where "res = OBJ_create e (sv 0) s (Some (cstr_at buf3 0))
                      (map_option (cstr_at buf3) sp) (map_option (cstr_at buf3) lp)"
  define early where "early \<longleftrightarrow> i \<le> 0 \<or> \<not> ossl_isalnum (peek buf2 0) \<or> peek buf3 0 = NUL"
  have unf: "create_objects_loop e sv (line # rest) buf l num s
             = (if early then Inr (num, s)
                else (case res of
                        Inl x \<Rightarrow> Inl x
                      | Inr (ok, s1) \<Rightarrow>
                          if ok = 0 then Inr (num, s1)
                          else create_objects_loop e (\<lambda>k. sv (Suc k)) rest buf3 lp (num + 1) s1))" for rest
    by (simp add: g buf2_def [symmetric] p res_def early_def)
  show ?thesis
  proof (cases early)
    case True
    then have "\<forall>rest. create_objects_loop e sv (line # rest) buf l num s = Inr (num, s)"
      by (simp add: unf del: create_objects_loop.simps)
    with inv show ?thesis by blast
  next
    case False
    show ?thesis
    proof (cases res)
      case (Inl f)
      with False have "\<forall>rest. create_objects_loop e sv (line # rest) buf l num s = Inl f"
        by (simp add: unf del: create_objects_loop.simps)
      then show ?thesis by blast
    next
      case (Inr r)
      obtain ok s1 where r: "r = (ok, s1)" by (cases r) auto
      note hh = OBJ_create_heap [OF Inr [unfolded res_def r] inv]
      note h = hh [THEN conjunct1] hh [THEN conjunct2]
      show ?thesis
      proof (cases "ok = 0")
        case True
        with False Inr r have st: "\<forall>rest. create_objects_loop e sv (line # rest) buf l num s = Inr (num, s1)"
          by (simp add: unf del: create_objects_loop.simps)
        have "dom (objects s1) = dom (objects s)" using h(1) True by simp
        with st h(2) show ?thesis by blast
      next
        case nz: False
        with False Inr r have ct: "\<forall>rest. create_objects_loop e sv (line # rest) buf l num s
                                  = create_objects_loop e (\<lambda>k. sv (Suc k)) rest buf3 lp (num + 1) s1"
          by (simp add: unf del: create_objects_loop.simps)
        have "dom (objects s1) = insert (brk s) (dom (objects s))" using h(1) nz by simp
        with ct h(2) show ?thesis by blast
      qed
    qed
  qed
qed

lemma create_objects_loop_count:
  assumes "create_objects_loop e sv ls buf l num s = Inr (n', s')" and "dom (objects s) \<subseteq> {..<brk s}"
  shows "num \<le> n' \<and> nat (n' - num) \<le> length ls
       \<and> dom (objects s) \<subseteq> dom (objects s') \<and> dom (objects s') \<subseteq> {..<brk s'}
       \<and> int (card (dom (objects s') - dom (objects s))) = n' - num
       \<and> (\<exists>s''. create_objects_loop e sv (take (nat (n' - num)) ls) buf l num s = Inr (n', s''))
       \<and> (nat (n' - num) < length ls \<longrightarrow>
            create_objects_loop e sv (take (Suc (nat (n' - num))) ls) buf l num s = Inr (n', s'))"
  using assms
proof (induction ls arbitrary: sv buf l num s)
  case Nil
  then show ?case by simp
next
  case (Cons line rest)
  from create_objects_step [OF Cons.prems(2), of e sv line buf l num]
  consider (stop) sX where "\<forall>rest. create_objects_loop e sv (line # rest) buf l num s = Inr (num, sX)"
      "dom (objects sX) = dom (objects s)" "dom (objects sX) \<subseteq> {..<brk sX}"
    | (fault) f where "\<forall>rest. create_objects_loop e sv (line # rest) buf l num s = Inl f"
    | (cont) buf3 lp s1 where "\<forall>rest. create_objects_loop e sv (line # rest) buf l num s
                                  = create_objects_loop e (\<lambda>k. sv (Suc k)) rest buf3 lp (num + 1) s1"
      "dom (objects s1) = insert (brk s) (dom (objects s))" "dom (objects s1) \<subseteq> {..<brk s1}"
    by blast
  then show ?case
  proof cases
    case stop
    with Cons.prems(1) have e: "n' = num" "s' = sX" by auto
    have "create_objects_loop e sv (take (Suc 0) (line # rest)) buf l num s = Inr (num, sX)"
      using stop(1) by simp
    with e stop show ?thesis by simp
  next
    case fault
    with Cons.prems(1) show ?thesis by simp
  next
    case cont
    with Cons.prems(1) have r: "create_objects_loop e (\<lambda>k. sv (Suc k)) rest buf3 lp (num + 1) s1 = Inr (n', s')"
      by simp
    from Cons.IH [OF r cont(3)] have ih:
      "num + 1 \<le> n'" "nat (n' - (num + 1)) \<le> length rest"
      "dom (objects s1) \<subseteq> dom (objects s')" "dom (objects s') \<subseteq> {..<brk s'}"
      "int (card (dom (objects s') - dom (objects s1))) = n' - (num + 1)"
      "\<exists>s''. create_objects_loop e (\<lambda>k. sv (Suc k)) (take (nat (n' - (num + 1))) rest) buf3 lp (num + 1) s1
              = Inr (n', s'')"
      "nat (n' - (num + 1)) < length rest \<longrightarrow>
         create_objects_loop e (\<lambda>k. sv (Suc k)) (take (Suc (nat (n' - (num + 1)))) rest) buf3 lp (num + 1) s1
           = Inr (n', s')"
      by auto
    have k: "nat (n' - num) = Suc (nat (n' - (num + 1)))" using ih(1) by simp
    have fresh: "brk s \<notin> dom (objects s)" using Cons.prems(2) by auto
    have fin: "finite (dom (objects s'))" using ih(4) finite_subset by blast
    have "dom (objects s') - dom (objects s) = insert (brk s) (dom (objects s') - dom (objects s1))"
      using cont(2) ih(3) fresh by auto
    moreover have "brk s \<notin> dom (objects s') - dom (objects s1)" using cont(2) by auto
    ultimately have "card (dom (objects s') - dom (objects s)) = Suc (card (dom (objects s') - dom (objects s1)))"
      using fin by simp
    with ih(5) have cnt: "int (card (dom (objects s') - dom (objects s))) = n' - num" by simp
    show ?thesis
      using ih cont(1,2) cnt unfolding k by auto
  qed
qed


lemma not_digit_line_stops:
  assumes "line = [] \<or> \<not> ossl_isdigit (hd line)"
  shows "create_objects_loop e sv (line # rest) buf l num s = Inr (num, s)"
proof (cases "take 511 line")
  case Nil
  then show ?thesis by (simp add: BIO_gets_def)
next
  case (Cons c cs)
  then have c: "c = hd line" "line \<noteq> []" by (cases line; simp)+
  with assms have nd: "\<not> ossl_isdigit c" by simp
  define buf1 where "buf1 = (c # cs) @ [NUL] @ drop (length (c # cs) + 1) buf"
  define buf2 where "buf2 = buf1[length cs := NUL]"
  have g: "BIO_gets line buf = (1 + int (length cs), buf1)"
    by (simp add: BIO_gets_def Cons buf1_def)
  have unf: "create_objects_loop e sv (line # rest) buf l num s
             = (if \<not> ossl_isalnum (peek buf2 0) then Inr (num, s)
                else if peek (fst (parse_line buf2 l)) 0 = NUL then Inr (num, s)
                else (case OBJ_create e (sv 0) s (Some (cstr_at (fst (parse_line buf2 l)) 0))
                        (map_option (cstr_at (fst (parse_line buf2 l))) (fst (snd (parse_line buf2 l))))
                        (map_option (cstr_at (fst (parse_line buf2 l))) (snd (snd (parse_line buf2 l)))) of
                   Inl x \<Rightarrow> Inl x
                 | Inr (ok, s1) \<Rightarrow>
                     if ok = 0 then Inr (num, s1)
                     else create_objects_loop e (\<lambda>k. sv (Suc k)) rest (fst (parse_line buf2 l))
                            (snd (snd (parse_line buf2 l))) (num + 1) s1))"
    by (simp add: g buf2_def [symmetric] case_prod_beta)
  have p0: "peek buf2 0 = (if cs = [] then NUL else c)"
    by (cases cs) (simp_all add: buf2_def buf1_def peek_def)
  have nn: "NUL \<noteq> CHR ''.''" by (simp add: NUL_def)
  have nal: "\<not> ossl_isalnum NUL" by (simp add: ossl_isalnum_def ossl_isdigit_def NUL_def)
  show ?thesis
  proof (cases "ossl_isalnum (peek buf2 0)")
    case False
    then show ?thesis
      by (simp add: unf del: create_objects_loop.simps)
  next
    case True
    with p0 nal have cs: "cs \<noteq> []" and al: "ossl_isalnum c" by (auto split: if_splits)
    from al have cdot: "c \<noteq> CHR ''.''" "c \<noteq> NUL"
      by (auto simp: ossl_isalnum_def ossl_isdigit_def NUL_def)
    obtain d ds where ds: "cs = d # ds" using cs by (cases cs) auto
    have b20: "buf2 = c # tl buf2" "length buf2 > 0"
      by (simp_all add: buf2_def buf1_def ds)
    have sk: "skip (\<lambda>x. ossl_isdigit x \<or> x = CHR ''.'') buf2 0 = 0"
      using nd cdot by (subst b20(1)) (simp add: skip_def)
    have pk: "peek buf2 0 \<noteq> NUL" using p0 cs cdot by simp
    define b where "b = buf2[0 := NUL]"
    have b0: "peek b 0 = NUL" "\<And>k. 0 < k \<Longrightarrow> peek (b[k := NUL]) 0 = NUL"
      using b20(2) by (simp_all add: b_def peek_def)
    have s1: "0 < skip ossl_isspace b (0 + 1)" by (simp add: skip_def)
    then have l1: "0 < skip (\<lambda>c. c \<noteq> NUL \<and> \<not> ossl_isspace c) b (skip ossl_isspace b (0 + 1))"
      by (simp add: skip_def)
    have "peek (fst (parse_line buf2 l)) 0 = NUL"
      using b0(1) b0(2) [OF l1]
      by (simp add: parse_line_def sk pk Let_def b_def [symmetric] del: One_nat_def)
    then show ?thesis
      by (simp add: unf del: create_objects_loop.simps)
  qed
qed

text \<open>
  The count of a run that returns. When \<^verbatim>\<open>OBJ_create_objects\<close> returns \<open>num\<close> on the lines
  \<open>ls\<close>, started in a state whose objects lie below the next fresh address, then \<open>num\<close> is
  between 0 and the number of lines; the first \<open>num\<close> lines alone also give \<open>num\<close>, so each
  of them made one successful call of \<^verbatim>\<open>OBJ_create\<close>; if there is a line after them, it is
  the line that stopped the loading: the first \<open>num + 1\<close> lines give the same count and the
  same state, whatever follows; the registry holds exactly \<open>num\<close> objects more than before,
  and none fewer; and a line that is empty or does not start with a digit (so a line that
  starts with a byte that is not alphanumeric, and a line whose OID field is empty)
  stops the loading with the count and the state reached so far.
\<close>

lemma create_objects_count:
  assumes "OBJ_create_objects e sv s ls = Inr (num, s')" and "dom (objects s) \<subseteq> {..<brk s}"
  shows "0 \<le> num \<and> nat num \<le> length ls
       \<and> (\<exists>s''. OBJ_create_objects e sv s (take (nat num) ls) = Inr (num, s''))
       \<and> (nat num < length ls \<longrightarrow>
            OBJ_create_objects e sv s (take (Suc (nat num)) ls) = Inr (num, s'))
       \<and> dom (objects s) \<subseteq> dom (objects s')
       \<and> int (card (dom (objects s') - dom (objects s))) = num
       \<and> (\<forall>line rest buf l k t. line = [] \<or> \<not> ossl_isdigit (hd line) \<longrightarrow>
            create_objects_loop e sv (line # rest) buf l k t = Inr (k, t))"
  using create_objects_loop_count [OF assms(1) [unfolded OBJ_create_objects_def] assms(2)]
    not_digit_line_stops [of _ e sv]
  by (simp add: OBJ_create_objects_def)

lemmas line_defs = OBJ_create_objects_def BIO_gets_def parse_line_def skip_def peek_def cstr_at_def
  ossl_isdigit_def ossl_isalnum_def ossl_isspace_def NUL_def

lemma create_objects_count_example:
  "OBJ_create_objects env0 (\<lambda>k. sv0) st0 [''1.2.3 x y\<newline>'', ''zz\<newline>'', ''2.5.4.3 a b\<newline>'']
     = Inr (1, st1)
   \<and> dom (objects st0) \<subseteq> {..<brk st0}
   \<and> OBJ_create_objects env0 (\<lambda>k. sv0) st0 [''1.2.3 x y\<newline>''] = Inr (1, st1)
   \<and> OBJ_create_objects env0 (\<lambda>k. sv0) st0 [''1.2.3 x y\<newline>'', ''zz\<newline>''] = Inr (1, st1)
   \<and> int (card (dom (objects st1) - dom (objects st0))) = 1"
proof -
  have d: "dom (objects st0) \<subseteq> {..<brk st0}" by (simp add: st0_def)
  have all: "OBJ_create_objects env0 (\<lambda>k. sv0) st0
               [''1.2.3 x y\<newline>'', ''zz\<newline>'', ''2.5.4.3 a b\<newline>''] = Inr (1, st1)"
    by (simp add: line_defs add_defs tag_defs env0_def sv0_def st0_def st1_def Let_def
          ossl_bsearch.simps insert_loop.simps rollback.simps memcmp_eq_0 fun_eq_iff)
  have one: "OBJ_create_objects env0 (\<lambda>k. sv0) st0 [''1.2.3 x y\<newline>''] = Inr (1, st1)"
    by (simp add: line_defs add_defs tag_defs env0_def sv0_def st0_def st1_def Let_def
          ossl_bsearch.simps insert_loop.simps rollback.simps memcmp_eq_0 fun_eq_iff)
  from create_objects_count [OF all d] one all d show ?thesis
    by (simp add: numeral_2_eq_2)
qed

text \<open>
  When the run returns. The only faults of the model on this path are those of the
  roll-back loop of \<^verbatim>\<open>ossl_obj_add_object\<close>, which runs when the hash table reports an
  error on an insert. When no insert fails, every call of \<^verbatim>\<open>OBJ_create\<close> returns, and so
  does the loader, with the count described above.
\<close>

lemma insert_loop_returns:
  assumes ok: "\<forall>j. insert_ok sv j" and ob: "objects s ob \<noteq> None"
  shows "\<exists>s'. insert_loop sv ao aop ob i s = Inr (True, s')"
  using ob
proof (induction "nat (4 - i)" arbitrary: i aop s rule: less_induct)
  case less
  show ?case
  proof (cases "i \<le> ADDED_NID")
    case False
    then show ?thesis by (simp add: insert_loop.simps [of sv ao aop ob i s])
  next
    case le: True
    then have m: "nat (4 - (i + 1)) < nat (4 - i)" by (simp add: ADDED_NID_def)
    show ?thesis
    proof (cases "ao i")
      case None
      with le less.hyps [OF m less.prems, of aop] show ?thesis
        by (simp add: insert_loop.simps [of sv ao aop ob i s])
    next
      case (Some c)
      define s1 where "s1 = s\<lparr>cells := (cells s)(c \<mapsto> \<lparr>ao_type = i, ao_obj = ob\<rparr>)\<rparr>"
      from less.prems obtain v where v: "objects s ob = Some v" by auto
      have k: "key_of_cell s1 c = Some (i, v)"
        by (simp add: key_of_cell_def s1_def v)
      define prev where "prev = lh_ADDED_OBJ_retrieve s1 (the_table s1) (i, v)"
      define s2 where "s2 = set_type prev (- 1) s1"
      define s3 where "s3 = s2\<lparr>added := Some (lh_put s2 (i, v) c (the_table s2))\<rparr>"
      have o3: "objects s3 ob \<noteq> None"
        by (simp add: s3_def s2_def s1_def v)
      have unf: "insert_loop sv ao aop ob i s = insert_loop sv ao (aop(i := prev)) ob (i + 1) s3"
        using le Some k ok
        by (simp add: insert_loop.simps [of sv ao aop ob i s] Let_def s1_def [symmetric]
              prev_def [symmetric] s2_def [symmetric] s3_def [symmetric] lh_ADDED_OBJ_insert_def)
      from less.hyps [OF m o3, of "aop(i := prev)"] show ?thesis
        unfolding unf .
    qed
  qed
qed

lemma add_object_returns:
  assumes ok: "\<forall>j. insert_ok sv j"
  shows "\<exists>r s'. ossl_obj_add_object sv s obj lock = Inr (r, s')"
proof (cases "dup_ok sv")
  case False
  then show ?thesis by (simp add: ossl_obj_add_object_def OBJ_dup_def)
next
  case True
  define ob where "ob = brk s"
  define s1 where "s1 = s\<lparr>objects := (objects s)(brk s \<mapsto> obj\<lparr>flags := flags obj OR DYNAMIC_BITS\<rparr>),
                           brk := Suc (brk s)\<rparr>"
  have dup: "OBJ_dup sv s obj = Some (ob, s1)"
    using True by (simp add: OBJ_dup_def ob_def s1_def)
  obtain okc ao s2 where al: "alloc_cells sv (wanted_cells obj) (\<lambda>i. None) s1 = (okc, ao, s2)"
    by (metis prod_cases3)
  from alloc_cells_heap [OF al] have o2: "objects s2 ob \<noteq> None"
    by (simp add: s1_def ob_def)
  define s2' where "s2' = s2\<lparr>added := Some (the_table s2)\<rparr>"
  have "objects s2' ob \<noteq> None" using o2 by (simp add: s2'_def)
  from insert_loop_returns [OF ok this, of ao "\<lambda>i. None" ADDED_DATA] obtain s3
    where il: "insert_loop sv ao (\<lambda>i. None) ob ADDED_DATA s2' = Inr (True, s3)" by blast
  from insert_loop_heap [OF il] o2 have "objects s3 ob \<noteq> None"
    by (simp add: same_heap_def s2'_def)
  then obtain v where v: "objects s3 ob = Some v" by auto
  show ?thesis
    unfolding ossl_obj_add_object_def dup option.case prod.case al Let_def s2'_def [symmetric] il
    by (simp add: v)
qed

lemma OBJ_create_shape:
  "(\<exists>r s'. OBJ_create e sv s oid sname lname = Inr (r, s'))
   \<or> (\<exists>s5 obj. OBJ_create e sv s oid sname lname = ossl_obj_add_object sv s5 obj False)"
  unfolding OBJ_create_def Let_def
  by (auto split: prod.splits option.splits)

lemma OBJ_create_returns:
  assumes "\<forall>j. insert_ok sv j"
  shows "\<exists>r s'. OBJ_create e sv s oid sname lname = Inr (r, s')"
  using OBJ_create_shape [of e sv s oid sname lname] add_object_returns [OF assms]
  by metis

lemma create_objects_loop_returns:
  assumes "\<forall>k j. insert_ok (sv k) j"
  shows "\<exists>n' s'. create_objects_loop e sv ls buf l num s = Inr (n', s')"
  using assms
proof (induction ls arbitrary: sv buf l num s)
  case Nil
  then show ?case by simp
next
  case (Cons line rest)
  obtain i buf1 where g: "BIO_gets line buf = (i, buf1)" by (metis prod.collapse)
  define buf2 where "buf2 = buf1[nat (i - 1) := NUL]"
  obtain buf3 sp lp where p: "parse_line buf2 l = (buf3, sp, lp)" by (metis prod_cases3)
  from Cons.prems have "\<forall>j. insert_ok (sv 0) j" by simp
  from OBJ_create_returns [OF this] obtain r s1 where
    c: "OBJ_create e (sv 0) s (Some (cstr_at buf3 0))
          (map_option (cstr_at buf3) sp) (map_option (cstr_at buf3) lp) = Inr (r, s1)"
    by blast
  from Cons.prems have "\<forall>k j. insert_ok (sv (Suc k)) j" by simp
  from Cons.IH [OF this] obtain n' s' where
    "create_objects_loop e (\<lambda>k. sv (Suc k)) rest buf3 lp (num + 1) s1 = Inr (n', s')"
    by blast
  then show ?case
    by (simp add: g buf2_def [symmetric] p c)
qed

lemma create_objects_returns:
  assumes "\<forall>k j. insert_ok (sv k) j"
  shows "\<exists>num s'. OBJ_create_objects e sv s ls = Inr (num, s')"
  unfolding OBJ_create_objects_def using assms by (rule create_objects_loop_returns)

lemma create_objects_total:
  assumes "\<forall>k j. insert_ok (sv k) j" and "dom (objects s) \<subseteq> {..<brk s}"
  shows "\<exists>num s'. OBJ_create_objects e sv s ls = Inr (num, s')
           \<and> 0 \<le> num \<and> nat num \<le> length ls
           \<and> (\<exists>s''. OBJ_create_objects e sv s (take (nat num) ls) = Inr (num, s''))
           \<and> (nat num < length ls \<longrightarrow>
                OBJ_create_objects e sv s (take (Suc (nat num)) ls) = Inr (num, s'))
           \<and> dom (objects s) \<subseteq> dom (objects s')
           \<and> int (card (dom (objects s') - dom (objects s))) = num"
proof -
  from create_objects_returns [OF assms(1)] obtain num s'
    where r: "OBJ_create_objects e sv s ls = Inr (num, s')" by blast
  from create_objects_count [OF r assms(2)] r show ?thesis by blast
qed

text \<open>
  C9 (the code against it). The loader reads the one line \<^verbatim>\<open>1.2.3 x\<close>, which has an OID
  and a short name but no long name, and calls \<^verbatim>\<open>OBJ_create("1.2.3", "x", NULL)\<close>; the
  hash table reports an error on the insert of the NID record. The registration should
  fail and the loader return the count 0. Instead the roll-back loop of
  \<^verbatim>\<open>ossl_obj_add_object\<close> reaches the long-name slot, whose cell was never allocated,
  and \<^verbatim>\<open>lh_ADDED_OBJ_delete\<close> is called with \<^verbatim>\<open>NULL\<close>: the loader returns no count.
\<close>

theorem create_objects_null_dereference:
  "OBJ_create_objects env0 (\<lambda>k. sv0\<lparr>insert_ok := (\<lambda>i. i \<noteq> ADDED_NID)\<rparr>) st0 [''1.2.3 x\<newline>'']
     = Inl NULL_DEREFERENCE"
  by (simp add: line_defs add_defs tag_defs env0_def sv0_def st0_def Let_def
        ossl_bsearch.simps insert_loop.simps rollback.simps memcmp_eq_0 fun_eq_iff)

subsection \<open>The text that is printed\<close>

lemma strlcpy_mem:
  "OPENSSL_strlcpy m dst src sz k =
     (if sz = 0 then m k
      else if dst \<le> k \<and> k < dst + int (min (length src) (sz - 1)) then src ! nat (k - dst)
      else if k = dst + int (min (length src) (sz - 1)) then NUL
      else m k)"
proof (induction src arbitrary: m dst sz)
  case Nil
  then show ?case by auto
next
  case (Cons c cs)
  show ?case
  proof (cases "sz > 1")
    case True
    then have "OPENSSL_strlcpy m dst (c # cs) sz k = OPENSSL_strlcpy (m(dst := c)) (dst + 1) cs (sz - 1) k"
      by simp
    also have "\<dots> = (if dst + 1 \<le> k \<and> k < dst + 1 + int (min (length cs) (sz - 1 - 1)) then cs ! nat (k - (dst + 1))
      else if k = dst + 1 + int (min (length cs) (sz - 1 - 1)) then NUL
      else (m(dst := c)) k)"
      using True by (subst Cons.IH) simp
    finally have *: "OPENSSL_strlcpy m dst (c # cs) sz k =
      (if dst + 1 \<le> k \<and> k < dst + 1 + int (min (length cs) (sz - 1 - 1)) then cs ! nat (k - (dst + 1))
      else if k = dst + 1 + int (min (length cs) (sz - 1 - 1)) then NUL
      else (m(dst := c)) k)" .
    have e: "dst + 1 \<le> k \<Longrightarrow> nat (k - (dst + 1)) = nat (k - dst) - 1" by arith
    have mn: "min (length (c # cs)) (sz - 1) = Suc (min (length cs) (sz - 1 - 1))"
      using True by (cases sz; cases "sz - 1"; simp add: min_def)
    show ?thesis unfolding * mn using True
      by (auto simp: nth_Cons' e)
  next
    case False
    then show ?thesis by auto
  qed
qed

lemma low7: "uint (ucast (c AND 0x7f :: byte) :: ulong) = uint (c AND 0x7f)"
  by (simp add: uint_up_ucast is_up)

lemma low7_lt: "unat (c AND 0x7f :: byte) < 128"
  by (rule order_le_less_trans [OF word_and_le1 [THEN word_le_nat_alt[THEN iffD1]]]) simp

lemma or_low7:
  fixes w :: ulong and c :: byte
  assumes "w \<le> drop_bit 7 ULONG_MAX"
  shows "unat (push_bit 7 w OR ucast (c AND 0x7f)) = unat w * 128 + unat (c AND 0x7f)"
proof -
  let ?x = "ucast (c AND 0x7f) :: ulong"
  have x: "unat ?x = unat (c AND 0x7f)"
    unfolding unat_eq_nat_uint low7 ..
  have w: "unat w < 2 ^ 57"
    using assms by (simp add: word_le_nat_alt ULONG_MAX_def unat_drop_bit_eq drop_bit_eq_div)
  have m7: "(0x7f :: byte) = mask 7"
    by (simp add: mask_eq_exp_minus_1)
  have disj: "push_bit 7 w AND ?x = 0"
    unfolding m7 by (rule bit_eqI) (auto simp: bit_simps)
  have o: "push_bit 7 w OR ?x = push_bit 7 w + ?x"
    using disj by (simp add: disjunctive_add_eq_or)
  have p: "unat (push_bit 7 w) = unat w * 128"
    using w by (simp add: push_bit_eq_mult unat_word_ariths)
  have "unat (push_bit 7 w + ?x) = unat (push_bit 7 w) + unat ?x"
    using w x low7_lt [of c] p
    by (subst unat_add_lem [THEN iffD1]) simp_all
  then show ?thesis using x o p by simp
qed


lemma sub_inv_start: "sub_inv 0 False bl 0"
  unfolding sub_inv_def by (auto intro!: exI [of _ 0])

lemma subid_loop_value:
  assumes "subid_loop sv p l u bl = Some (l', u', bl', rest)" and "sub_inv l u bl acc"
  shows "\<exists>v. spec_subids p acc = v # spec_subids rest 0
            \<and> (if u' then bl' = int v \<and> 80 \<le> v \<and> 80 \<le> l' else unat l' = v)"
  using assms
proof (induction p arbitrary: l u bl acc)
  case Nil
  then show ?case by simp
next
  case (Cons c p)
  let ?x = "unat (c AND 0x7f)"
  let ?v = "acc * 128 + ?x"
  have xi: "uint (c AND 0x7f) = int ?x" by simp
  show ?case
  proof (cases u)
    case True
    with Cons.prems(2) have inv: "bl = int acc * 128" "80 \<le> acc" "80 \<le> l"
      by (simp_all add: sub_inv_def)
    show ?thesis
    proof (cases "c AND 0x80 = 0")
      case fin: True
      with Cons.prems(1) True have "l' = l" "u'" "bl' = bl + uint (c AND 0x7f)" "rest = p"
        by (auto simp: Let_def split: if_splits)
      with inv fin show ?thesis by (simp add: Let_def)
    next
      case cont: False
      with Cons.prems(1) True
      have rec: "subid_loop sv p l True (push_bit 7 (bl + uint (c AND 0x7f))) = Some (l', u', bl', rest)"
        by (auto simp: Let_def split: if_splits)
      have "sub_inv l True (push_bit 7 (bl + uint (c AND 0x7f))) ?v"
        using inv by (simp add: sub_inv_def push_bit_eq_mult)
      from Cons.IH [OF rec this] cont show ?thesis by (simp add: Let_def)
    qed
  next
    case False
    with Cons.prems(2) obtain w where w: "l = push_bit 7 w" "w \<le> drop_bit 7 ULONG_MAX" "unat w = acc"
      by (auto simp: sub_inv_def)
    define l1 where "l1 = l OR ucast (c AND 0x7f)"
    have v: "unat l1 = ?v"
      unfolding l1_def w(1) using or_low7 [OF w(2), of c] w(3) by simp
    show ?thesis
    proof (cases "c AND 0x80 = 0")
      case fin: True
      with Cons.prems(1) False have "l' = l1" "\<not> u'" "rest = p"
        by (auto simp: Let_def l1_def split: if_splits)
      with v fin show ?thesis by (simp add: Let_def)
    next
      case cont: False
      show ?thesis
      proof (cases "l1 > drop_bit 7 ULONG_MAX")
        case big: True
        with Cons.prems(1) False cont
        have rec: "subid_loop sv p l1 True (push_bit 7 (uint l1)) = Some (l', u', bl', rest)"
          by (auto simp: Let_def l1_def split: if_splits)
        have "unat (drop_bit 7 ULONG_MAX) < unat l1"
          using big by (simp add: word_less_nat_alt)
        then have ge: "80 \<le> unat l1"
          by (simp add: ULONG_MAX_def unat_drop_bit_eq drop_bit_eq_div)
        then have "80 \<le> l1" by (simp add: word_le_nat_alt)
        moreover have "uint l1 = int ?v" unfolding v [symmetric] by simp
        ultimately have "sub_inv l1 True (push_bit 7 (uint l1)) ?v"
          using ge v by (simp add: sub_inv_def push_bit_eq_mult)
        from Cons.IH [OF rec this] cont show ?thesis by (simp add: Let_def)
      next
        case small: False
        with Cons.prems(1) False cont
        have rec: "subid_loop sv p (push_bit 7 l1) False bl = Some (l', u', bl', rest)"
          by (auto simp: Let_def l1_def split: if_splits)
        have "sub_inv (push_bit 7 l1) False bl ?v"
          unfolding sub_inv_def using small v by (auto intro!: exI [of _ l1])
        from Cons.IH [OF rec this] cont show ?thesis by (simp add: Let_def)
      qed
    qed
  qed
qed


lemma size_t_id: "0 \<le> x \<Longrightarrow> x < 2 ^ 64 \<Longrightarrow> size_t x = nat x"
  by (simp add: size_t_def)

lemma buf_inv_null: "o_null ot \<Longrightarrow> buf_inv cap m0 t ot \<longleftrightarrow> o_n ot = int (length t)"
  by (simp add: buf_inv_def)

text \<open>Nothing is written: only the count grows.\<close>

lemma count_step:
  assumes "buf_inv cap m0 t ot" and "o_null ot \<or> o_len ot \<le> 1"
  shows "buf_inv cap m0 (t @ x) (ot\<lparr>o_n := o_n ot + int (length x)\<rparr>)"
proof (cases "o_null ot")
  case True
  with assms show ?thesis by (simp add: buf_inv_def)
next
  case False
  with assms have f: "o_n ot = int (length t)" "0 \<le> o_len ot" "0 \<le> o_pos ot"
      "o_pos ot + o_len ot = cap" "o_pos ot \<le> o_n ot" "o_len ot = 0 \<longrightarrow> cap - 1 \<le> o_n ot"
      "\<forall>k. 0 \<le> k \<and> k < min (o_n ot) (cap - 1) \<longrightarrow> o_mem ot k = t ! nat k"
      "1 \<le> cap \<longrightarrow> o_mem ot (min (o_n ot) (cap - 1)) = NUL"
      "\<forall>k. k < 0 \<or> cap \<le> k \<longrightarrow> o_mem ot k = m0 k" "o_len ot \<le> 1"
    by (auto simp: buf_inv_def)
  have n: "cap - 1 \<le> o_n ot" using f by (cases "o_len ot = 0") auto
  then have mn: "min (o_n ot) (cap - 1) = cap - 1" "min (o_n ot + int (length x)) (cap - 1) = cap - 1"
    by simp_all
  show ?thesis
    unfolding buf_inv_def using f n False
    by (auto simp: nth_append mn)
qed

text \<open>One character and the terminator are written where room for both is left.\<close>

lemma put_char_step:
  assumes "buf_inv cap m0 t ot" and "\<not> o_null ot" and "1 < o_len ot"
  shows "buf_inv cap m0 (t @ [c]) ((put_char c ot)\<lparr>o_n := o_n ot + 1\<rparr>)"
proof -
  from assms have f: "o_n ot = int (length t)" "0 \<le> o_pos ot" "o_pos ot + o_len ot = cap"
      "o_pos ot = o_n ot"
      "\<forall>k. 0 \<le> k \<and> k < min (o_n ot) (cap - 1) \<longrightarrow> o_mem ot k = t ! nat k"
      "\<forall>k. k < 0 \<or> cap \<le> k \<longrightarrow> o_mem ot k = m0 k"
    by (simp_all add: buf_inv_def)
  have mn: "min (o_n ot) (cap - 1) = o_n ot" "min (o_n ot + 1) (cap - 1) = o_n ot + 1"
    using f assms(3) by simp_all
  show ?thesis
    unfolding buf_inv_def put_char_def using f assms(2,3)
    by (auto simp: nth_append mn)
qed


lemma advance_simps [simp]:
  "o_mem (advance i ot) = o_mem ot" "o_null (advance i ot) = o_null ot" "o_n (advance i ot) = o_n ot"
  by (simp_all add: advance_def)

text \<open>A copy into a buffer that has no room for a character.\<close>

lemma trunc_step:
  assumes inv: "buf_inv cap m0 t ot" and nn: "\<not> o_null ot" and le: "o_len ot \<le> 1"
    and x: "1 \<le> length x" and i: "0 \<le> i" and cap: "cap < 2 ^ 64"
  shows "buf_inv cap m0 (t @ x)
           ((advance i (ot\<lparr>o_mem := OPENSSL_strlcpy (o_mem ot) (o_pos ot) src (size_t (o_len ot))\<rparr>))
              \<lparr>o_n := o_n ot + int (length x)\<rparr>)"
proof -
  from inv nn have f: "o_n ot = int (length t)" "0 \<le> o_len ot" "0 \<le> o_pos ot"
      "o_pos ot + o_len ot = cap" "o_pos ot \<le> o_n ot" "o_len ot = 0 \<longrightarrow> cap - 1 \<le> o_n ot"
      "\<forall>k. 0 \<le> k \<and> k < min (o_n ot) (cap - 1) \<longrightarrow> o_mem ot k = t ! nat k"
      "1 \<le> cap \<longrightarrow> o_mem ot (min (o_n ot) (cap - 1)) = NUL"
      "\<forall>k. k < 0 \<or> cap \<le> k \<longrightarrow> o_mem ot k = m0 k"
    by (auto simp: buf_inv_def)
  have n: "cap - 1 \<le> o_n ot" using f le by (cases "o_len ot = 0") auto
  then have mn: "min (o_n ot) (cap - 1) = cap - 1" "min (o_n ot + int (length x)) (cap - 1) = cap - 1"
    by simp_all
  have st: "size_t (o_len ot) = nat (o_len ot)"
    using f cap by (intro size_t_id) auto
  consider "o_len ot = 0" | "o_len ot = 1" using f le by linarith
  then show ?thesis
  proof cases
    case 1
    have m: "OPENSSL_strlcpy (o_mem ot) (o_pos ot) src (size_t (o_len ot)) = o_mem ot"
      by (rule ext) (simp add: strlcpy_mem 1 size_t_def)
    show ?thesis
      unfolding buf_inv_def advance_def m using f n x i 1
      by (auto simp: nth_append mn)
  next
    case 2
    then have p: "o_pos ot = cap - 1" using f by simp
    have m: "OPENSSL_strlcpy (o_mem ot) (o_pos ot) src (size_t (o_len ot)) = (o_mem ot)(cap - 1 := NUL)"
      by (rule ext) (simp add: strlcpy_mem 2 p size_t_def)
    show ?thesis
      unfolding buf_inv_def advance_def m using f n x i 2 p
      by (auto simp: nth_append mn)
  qed
qed

text \<open>A copy into a buffer with room for at least the terminator, at the end of the text.\<close>

lemma copy_step:
  assumes inv: "buf_inv cap m0 t ot" and nn: "\<not> o_null ot" and ge: "1 \<le> o_len ot"
    and at: "o_pos ot = o_n ot" and cap: "cap < 2 ^ 64"
  shows "buf_inv cap m0 (t @ src)
           ((advance (int (length src))
               (ot\<lparr>o_mem := OPENSSL_strlcpy (o_mem ot) (o_pos ot) src (size_t (o_len ot))\<rparr>))
              \<lparr>o_n := o_n ot + int (length src)\<rparr>)"
proof -
  from inv nn have f: "o_n ot = int (length t)" "0 \<le> o_pos ot"
      "o_pos ot + o_len ot = cap"
      "\<forall>k. 0 \<le> k \<and> k < min (o_n ot) (cap - 1) \<longrightarrow> o_mem ot k = t ! nat k"
      "\<forall>k. k < 0 \<or> cap \<le> k \<longrightarrow> o_mem ot k = m0 k"
    by (simp_all add: buf_inv_def)
  define n where "n = length t"
  define len where "len = nat (o_len ot)"
  define c where "c = min (length src) (len - 1)"
  have len: "o_len ot = int len" "1 \<le> len" using ge by (simp_all add: len_def)
  have pos: "o_pos ot = int n" "o_n ot = int n" using f at by (simp_all add: n_def)
  have capn: "cap = int n + int len" using f pos len by simp
  have st: "size_t (o_len ot) = len"
    using cap capn len by (simp add: size_t_id)
  have mem: "OPENSSL_strlcpy (o_mem ot) (o_pos ot) src (size_t (o_len ot)) k =
        (if int n \<le> k \<and> k < int n + int c then src ! nat (k - int n)
         else if k = int n + int c then NUL else o_mem ot k)" for k
    unfolding strlcpy_mem st pos c_def using len by simp
  have old: "0 \<le> k \<Longrightarrow> k < int n \<Longrightarrow> o_mem ot k = t ! nat k" for k
    using f(4) pos capn len by simp
  have mn: "min (int n + int (length src)) (cap - 1) = int n + int c"
    unfolding c_def capn using len by (simp add: min_def) linarith
  let ?ot = "(advance (int (length src))
               (ot\<lparr>o_mem := OPENSSL_strlcpy (o_mem ot) (o_pos ot) src (size_t (o_len ot))\<rparr>))
              \<lparr>o_n := o_n ot + int (length src)\<rparr>"
  have a1: "o_n ?ot = int (length (t @ src))"
    by (simp add: advance_def pos n_def)
  have a2: "\<not> o_null ?ot" using nn by (simp add: advance_def)
  have a3: "0 \<le> o_len ?ot \<and> 0 \<le> o_pos ?ot \<and> o_pos ?ot + o_len ?ot = cap \<and> o_pos ?ot \<le> o_n ?ot
        \<and> (1 < o_len ?ot \<longrightarrow> o_pos ?ot = o_n ?ot) \<and> (o_len ?ot = 0 \<longrightarrow> cap - 1 \<le> o_n ?ot)"
    using len by (auto simp: advance_def pos capn)
  have a5: "\<forall>k. 0 \<le> k \<and> k < min (o_n ?ot) (cap - 1) \<longrightarrow> o_mem ?ot k = (t @ src) ! nat k"
  proof (intro allI impI)
    fix k assume k: "0 \<le> k \<and> k < min (o_n ?ot) (cap - 1)"
    have "o_n ?ot = int n + int (length src)" by (simp add: advance_def pos)
    with k mn have kk: "0 \<le> k" "k < int n + int c" by simp_all
    show "o_mem ?ot k = (t @ src) ! nat k"
    proof (cases "k < int n")
      case True
      then show ?thesis using kk old [of k] by (simp add: mem nth_append n_def nat_less_iff)
    next
      case False
      then have "nat k - n = nat (k - int n)" by simp
      with False kk show ?thesis by (simp add: mem nth_append n_def [symmetric] nat_less_iff)
    qed
  qed
  have a6: "1 \<le> cap \<longrightarrow> o_mem ?ot (min (o_n ?ot) (cap - 1)) = NUL"
  proof -
    have "o_n ?ot = int n + int (length src)" by (simp add: advance_def pos)
    then show ?thesis by (simp add: mn mem)
  qed
  have a7: "\<forall>k. k < 0 \<or> cap \<le> k \<longrightarrow> o_mem ?ot k = m0 k"
  proof (intro allI impI)
    fix k assume k: "k < 0 \<or> cap \<le> k"
    have "c \<le> len - 1" by (simp add: c_def)
    then have "int n + int c < cap" using capn len by simp
    with k have "\<not> (int n \<le> k \<and> k < int n + int c)" "k \<noteq> int n + int c" by auto
    then show "o_mem ?ot k = m0 k" using f(5) k by (auto simp: mem)
  qed
  show ?thesis
    unfolding buf_inv_def using a1 a2 a3 a5 a6 a7 by blast
qed


lemma emit_arc_step:
  assumes e: "emit_arc sv l u bl ot = Some ot3" and inv: "buf_inv cap m0 t ot" and cap: "cap < 2 ^ 64"
  shows "buf_inv cap m0 (t @ CHR ''.'' # (if u then BN_bn2dec bl else dec (unat l))) ot3
       \<and> o_null ot3 = o_null ot"
proof (cases "o_null ot")
  case True
  let ?x = "CHR ''.'' # (if u then BN_bn2dec bl else dec (unat l))"
  from e True have "ot3 = ot\<lparr>o_n := o_n ot + int (length ?x)\<rparr>"
    by (auto simp: emit_arc_def Let_def split: if_splits)
  with count_step [OF inv, of ?x] True show ?thesis by simp
next
  case nn: False
  have pos: "1 < o_len ot \<Longrightarrow> o_pos ot = o_n ot" and len0: "0 \<le> o_len ot"
    using inv nn by (simp_all add: buf_inv_def)
  show ?thesis
  proof (cases u)
    case False
    let ?x = "CHR ''.'' # dec (unat l)"
    consider "o_len ot = 0" | "o_len ot = 1" | "1 < o_len ot" using len0 by linarith
    then show ?thesis
    proof cases
      case 1
      with e False nn have "ot3 = ot\<lparr>o_n := o_n ot + int (length ?x)\<rparr>"
        by (simp add: emit_arc_def Let_def)
      with count_step [OF inv, of ?x] 1 False show ?thesis by simp
    next
      case 2
      with e False nn have "ot3 = (advance (int (length ?x))
            (ot\<lparr>o_mem := OPENSSL_strlcpy (o_mem ot) (o_pos ot) ?x (size_t (o_len ot))\<rparr>))
              \<lparr>o_n := o_n ot + int (length ?x)\<rparr>"
        by (simp add: emit_arc_def Let_def)
      with trunc_step [OF inv nn _ _ _ cap, of ?x "int (length ?x)" ?x] 2 False nn
      show ?thesis by simp
    next
      case 3
      with e False nn have "ot3 = (advance (int (length ?x))
            (ot\<lparr>o_mem := OPENSSL_strlcpy (o_mem ot) (o_pos ot) ?x (size_t (o_len ot))\<rparr>))
              \<lparr>o_n := o_n ot + int (length ?x)\<rparr>"
        by (simp add: emit_arc_def Let_def)
      with copy_step [OF inv nn _ pos cap, of ?x] 3 False nn
      show ?thesis by simp
    qed
  next
    case True
    let ?d = "BN_bn2dec bl"
    show ?thesis
    proof (cases "1 < o_len ot")
      case False
      with e True nn have "ot3 = (advance (int (length ?d))
            (ot\<lparr>o_mem := OPENSSL_strlcpy (o_mem ot) (o_pos ot) ?d (size_t (o_len ot))\<rparr>))
              \<lparr>o_n := o_n ot + int (length (CHR ''.'' # ?d))\<rparr>"
        by (auto simp: emit_arc_def Let_def add.assoc split: if_splits)
      with trunc_step [OF inv nn _ _ _ cap, of "CHR ''.'' # ?d" "int (length ?d)" ?d] False True nn
      show ?thesis by simp
    next
      case big: True
      define pc where "pc = (put_char (CHR ''.'') ot)\<lparr>o_n := o_n ot + 1\<rparr>"
      have i1: "buf_inv cap m0 (t @ [CHR ''.'']) pc"
        unfolding pc_def by (rule put_char_step [OF inv nn big])
      have pcf: "\<not> o_null pc" "1 \<le> o_len pc" "o_pos pc = o_n pc"
        using nn big pos by (simp_all add: pc_def put_char_def)
      from e True nn big have "ot3 = (advance (int (length ?d))
            (pc\<lparr>o_mem := OPENSSL_strlcpy (o_mem pc) (o_pos pc) ?d (size_t (o_len pc))\<rparr>))
              \<lparr>o_n := o_n pc + int (length ?d)\<rparr>"
        by (auto simp: emit_arc_def Let_def pc_def put_char_def advance_def add.assoc split: if_splits)
      with copy_step [OF i1 pcf cap, of ?d] True nn
      show ?thesis by (simp add: pc_def put_char_def)
    qed
  qed
qed


lemma dec_digit: "k < 10 \<Longrightarrow> dec k = [char_of (int k + 48)]"
proof -
  have "int k + 48 = of_nat (48 + k)" by simp
  then have "char_of (int k + 48) = char_of (48 + k)" by (simp only: char_of_nat)
  then show "k < 10 \<Longrightarrow> dec k = [char_of (int k + 48)]"
    by (subst dec.simps) (simp add: digit_def)
qed

lemma first_arc_step:
  assumes fa: "first_arc sv l u bl ot = Some (l2, bl2, ot2)" and inv: "buf_inv cap m0 t ot"
    and val: "if u then bl = int v \<and> 80 \<le> v \<and> 80 \<le> l else unat l = v"
  shows "buf_inv cap m0 (t @ dec (fst (spec_split_first v))) ot2 \<and> o_null ot2 = o_null ot
       \<and> (if u then BN_bn2dec bl2 else dec (unat l2)) = dec (snd (spec_split_first v))"
proof -
  define i where "i = (if l \<ge> 80 then 2 else uint (l div 40))"
  define c where "c = char_of (i + 48)"
  have l80: "l \<ge> 80 \<longleftrightarrow> 80 \<le> v"
    using val by (cases u) (auto simp: word_le_nat_alt)
  have a: "dec (fst (spec_split_first v)) = [c]"
  proof (cases "80 \<le> v")
    case True
    then show ?thesis using l80 by (simp add: spec_split_first_def c_def i_def dec_digit)
  next
    case False
    then have "\<not> u" "unat l = v" using val by (auto split: if_splits)
    then have "uint l = int v" by auto
    then have "uint (l div 40) = int (v div 40)"
      by (simp add: uint_div zdiv_int)
    moreover have "v div 40 < 10" using False by simp
    ultimately show ?thesis using False l80 by (simp add: spec_split_first_def c_def i_def dec_digit)
  qed
  have b: "(if u then BN_bn2dec bl2 else dec (unat l2)) = dec (snd (spec_split_first v))"
  proof (cases u)
    case True
    with val fa have "bl2 = int v - 80" "80 \<le> v"
      by (auto simp: first_arc_def Let_def split: if_splits)
    then show ?thesis using True by (simp add: BN_bn2dec_def spec_split_first_def nat_diff_distrib')
  next
    case False
    with val have v: "unat l = v" by simp
    show ?thesis
    proof (cases "80 \<le> v")
      case True
      with fa False l80 have "l2 = l - 80" by (auto simp: first_arc_def Let_def split: if_splits)
      moreover have "unat (l - 80) = unat l - 80"
        using l80 True by (subst unat_sub) simp_all
      ultimately show ?thesis using False True v by (simp add: spec_split_first_def)
    next
      case lt: False
      with fa False l80 have "l2 = l - word_of_int (uint (l div 40) * 40)"
        by (auto simp: first_arc_def Let_def split: if_splits)
      also have "\<dots> = l - l div 40 * 40" by simp
      also have "\<dots> = l mod 40" by (simp add: minus_div_mult_eq_mod)
      finally have "unat l2 = v mod 40" using v by (simp add: unat_mod)
      then show ?thesis using False lt by (simp add: spec_split_first_def)
    qed
  qed
  have o: "ot2 = (if \<not> o_null ot \<and> o_len ot > 1 then (put_char c ot)\<lparr>o_n := o_n ot + 1\<rparr>
                  else ot\<lparr>o_n := o_n ot + int (length [c])\<rparr>)"
    using fa by (auto simp: first_arc_def Let_def c_def i_def put_char_def split: if_splits)
  have "buf_inv cap m0 (t @ [c]) ot2 \<and> o_null ot2 = o_null ot"
  proof (cases "\<not> o_null ot \<and> o_len ot > 1")
    case True
    with o put_char_step [OF inv, of c] show ?thesis by (simp add: put_char_def)
  next
    case False
    then have "o_null ot \<or> o_len ot \<le> 1" by auto
    from count_step [OF inv this, of "[c]"] o False show ?thesis by auto
  qed
  with a b show ?thesis by simp
qed


lemma spec_dotted_Cons: "spec_dotted (v # vs) = CHR ''.'' # dec v @ spec_dotted vs"
  by (simp add: spec_dotted_def)

lemma obj2txt_loop_Nil [simp]: "obj2txt_loop sv [] first bl ot = (True, ot)"
  by (simp add: obj2txt_loop.simps)

lemma obj2txt_loop_text:
  assumes "obj2txt_loop sv p first bl ot = (ok, ot')" and "buf_inv cap m0 t ot" and "cap < 2 ^ 64"
  shows "(\<exists>t'. buf_inv cap m0 t' ot') \<and> o_null ot' = o_null ot
       \<and> (ok \<longrightarrow> buf_inv cap m0 (t @ (if first then spec_der_to_text p else spec_dotted (spec_subids p 0))) ot')"
  using assms
proof (induction "length p" arbitrary: p first bl ot t rule: less_induct)
  case less
  note inv = less.prems(2) and cap = less.prems(3)
  show ?case
  proof (cases "p = []")
    case True
    with less.prems(1) have "ok" "ot' = ot" by simp_all
    with inv True show ?thesis by (auto simp: spec_der_to_text_def spec_dotted_def)
  next
    case ne: False
    show ?thesis
    proof (cases "subid_loop sv p 0 False bl")
      case None
      with less.prems(1) ne have "ot' = ot" "\<not> ok" by (simp_all add: obj2txt_loop.simps [of sv p])
      with inv show ?thesis by auto
    next
      case (Some r)
      obtain l u bl1 rest where r: "r = (l, u, bl1, rest)" by (cases r) auto
      note sl = Some [unfolded r]
      from subid_loop_shorter [OF sl] have sh: "length rest < length p" .
      from subid_loop_value [OF sl sub_inv_start] obtain v
        where v: "spec_subids p 0 = v # spec_subids rest 0"
          and val: "if u then bl1 = int v \<and> 80 \<le> v \<and> 80 \<le> l else unat l = v"
        by blast
      define fa where "fa = (if first then first_arc sv l u bl1 ot else Some (l, bl1, ot))"
      have unf: "obj2txt_loop sv p first bl ot =
          (case fa of None \<Rightarrow> (False, ot)
           | Some (l2, bl2, ot2) \<Rightarrow>
               (case emit_arc sv l2 u bl2 ot2 of None \<Rightarrow> (False, ot2)
                | Some ot3 \<Rightarrow> obj2txt_loop sv rest False bl2 ot3))"
        using ne sl by (simp add: obj2txt_loop.simps [of sv p] fa_def)
      show ?thesis
      proof (cases fa)
        case None
        with less.prems(1) unf have "ot' = ot" "\<not> ok" by simp_all
        with inv show ?thesis by auto
      next
        case (Some q)
        obtain l2 bl2 ot2 where q: "q = (l2, bl2, ot2)" by (cases q) auto
        note fa2 = Some [unfolded q]
        define pre where "pre = (if first then dec (fst (spec_split_first v)) else [])"
        define w where "w = (if first then snd (spec_split_first v) else v)"
        have st: "buf_inv cap m0 (t @ pre) ot2 \<and> o_null ot2 = o_null ot
            \<and> (if u then BN_bn2dec bl2 else dec (unat l2)) = dec w"
        proof (cases first)
          case True
          with fa2 have "first_arc sv l u bl1 ot = Some (l2, bl2, ot2)" by (simp add: fa_def)
          from first_arc_step [OF this inv val] True show ?thesis by (simp add: pre_def w_def)
        next
          case False
          with fa2 have "l2 = l" "bl2 = bl1" "ot2 = ot" by (simp_all add: fa_def)
          with inv val False show ?thesis by (auto simp: pre_def w_def BN_bn2dec_def)
        qed
        have tx: "(if first then spec_der_to_text p else spec_dotted (spec_subids p 0))
            = pre @ CHR ''.'' # dec w @ spec_dotted (spec_subids rest 0)"
          by (simp add: spec_der_to_text_def v pre_def w_def spec_dotted_Cons split: prod.splits)
        show ?thesis
        proof (cases "emit_arc sv l2 u bl2 ot2")
          case None
          with less.prems(1) unf fa2 have "ot' = ot2" "\<not> ok" by simp_all
          with st show ?thesis by auto
        next
          case (Some ot3)
          from emit_arc_step [OF Some st [THEN conjunct1] cap] st
          have i3: "buf_inv cap m0 ((t @ pre) @ CHR ''.'' # dec w) ot3" "o_null ot3 = o_null ot"
            by simp_all
          from less.prems(1) unf fa2 Some
          have rec: "obj2txt_loop sv rest False bl2 ot3 = (ok, ot')" by simp
          from less.hyps [OF sh rec i3(1) cap] i3(2) show ?thesis
            unfolding tx by simp
        qed
      qed
    qed
  qed
qed

text \<open>Whether the loop ends well does not depend on the buffer.\<close>

lemma emit_arc_None: "emit_arc sv l u bl ot = None \<longleftrightarrow> u \<and> \<not> bn_ok sv"
  by (simp add: emit_arc_def Let_def)

lemma first_arc_indep:
  "map_option (\<lambda>(l2, bl2, ot2). (l2, bl2)) (first_arc sv l u bl ot)
     = map_option (\<lambda>(l2, bl2, ot2). (l2, bl2)) (first_arc sv l u bl ot2)"
  by (simp add: first_arc_def Let_def)

lemma obj2txt_loop_ok:
  "fst (obj2txt_loop sv p first bl ot) = fst (obj2txt_loop sv p first bl ot2)"
proof (induction "length p" arbitrary: p first bl ot ot2 rule: less_induct)
  case less
  show ?case
  proof (cases "p = []")
    case True
    then show ?thesis by simp
  next
    case ne: False
    show ?thesis
    proof (cases "subid_loop sv p 0 False bl")
      case None
      with ne show ?thesis by (simp add: obj2txt_loop.simps [of sv p])
    next
      case (Some r)
      obtain l u bl1 rest where r: "r = (l, u, bl1, rest)" by (cases r) auto
      note sl = Some [unfolded r]
      from subid_loop_shorter [OF sl] have sh: "length rest < length p" .
      define fa where "fa x = (if first then first_arc sv l u bl1 x else Some (l, bl1, x))" for x
      have unf: "obj2txt_loop sv p first bl x =
          (case fa x of None \<Rightarrow> (False, x)
           | Some (l2, bl2, x2) \<Rightarrow>
               (case emit_arc sv l2 u bl2 x2 of None \<Rightarrow> (False, x2)
                | Some x3 \<Rightarrow> obj2txt_loop sv rest False bl2 x3))" for x
        using ne sl by (simp add: obj2txt_loop.simps [of sv p] fa_def)
      have ind: "map_option (\<lambda>(l2, bl2, ot2). (l2, bl2)) (fa ot)
            = map_option (\<lambda>(l2, bl2, ot2). (l2, bl2)) (fa ot2)"
        using first_arc_indep [of sv l u bl1 ot ot2] by (simp add: fa_def)
      show ?thesis
      proof (cases "fa ot")
        case None
        with ind have "fa ot2 = None" by simp
        with None show ?thesis by (simp add: unf)
      next
        case (Some q)
        obtain l2 bl2 x2 where q: "fa ot = Some (l2, bl2, x2)" using Some by (cases q) auto
        with ind obtain y2 where q2: "fa ot2 = Some (l2, bl2, y2)"
          by (cases "fa ot2") auto
        show ?thesis
        proof (cases "u \<and> \<not> bn_ok sv")
          case True
          then have "emit_arc sv l2 u bl2 x2 = None" "emit_arc sv l2 u bl2 y2 = None"
            by (simp_all add: emit_arc_None)
          then show ?thesis by (simp add: unf q q2)
        next
          case False
          then obtain x3 y3 where "emit_arc sv l2 u bl2 x2 = Some x3" "emit_arc sv l2 u bl2 y2 = Some y3"
            using emit_arc_None [of sv l2 u bl2] by (metis not_Some_eq)
          then show ?thesis using less.hyps [OF sh, of False bl2 x3 y3] by (simp add: unf q q2)
        qed
      qed
    qed
  qed
qed


lemma buf_inv_holds:
  assumes "buf_inv cap m0 t ot" and "\<not> o_null ot"
  shows "holds_text (o_mem ot) cap t" and "o_n ot = int (length t)"
    and "1 \<le> cap \<Longrightarrow> \<exists>k. 0 \<le> k \<and> k < cap \<and> o_mem ot k = NUL"
    and "\<forall>k. k < 0 \<or> cap \<le> k \<longrightarrow> o_mem ot k = m0 k"
proof -
  from assms have f: "o_n ot = int (length t)"
      "\<forall>k. 0 \<le> k \<and> k < min (o_n ot) (cap - 1) \<longrightarrow> o_mem ot k = t ! nat k"
      "1 \<le> cap \<longrightarrow> o_mem ot (min (o_n ot) (cap - 1)) = NUL"
      "\<forall>k. k < 0 \<or> cap \<le> k \<longrightarrow> o_mem ot k = m0 k"
    by (auto simp: buf_inv_def)
  show "holds_text (o_mem ot) cap t" using f by (simp add: holds_text_def)
  show "o_n ot = int (length t)" by fact
  show "\<forall>k. k < 0 \<or> cap \<le> k \<longrightarrow> o_mem ot k = m0 k" by fact
  show "\<exists>k. 0 \<le> k \<and> k < cap \<and> o_mem ot k = NUL" if "1 \<le> cap"
    using f(1,3) that by (intro exI [of _ "min (o_n ot) (cap - 1)"]) auto
qed

lemma start_inv:
  assumes "0 \<le> cap" and "null \<or> (1 \<le> cap \<longrightarrow> m 0 = NUL)"
  shows "buf_inv cap m [] \<lparr>o_mem = m, o_null = null, o_pos = 0, o_len = cap, o_n = 0\<rparr>"
  using assms by (auto simp: buf_inv_def)

lemma obj2txt_dotted_text:
  assumes d: "obj2txt_dotted sv m null cap a = (r, m')" and c0: "0 \<le> cap" and c1: "cap < 2 ^ 64"
    and st: "null \<or> (1 \<le> cap \<longrightarrow> m 0 = NUL)"
  shows "r = - 1 \<or> r = int (length (spec_der_to_text (bytes_of (data a))))"
    and "\<not> null \<Longrightarrow> 1 \<le> cap \<Longrightarrow> \<exists>k. 0 \<le> k \<and> k < cap \<and> m' k = NUL"
    and "\<not> null \<Longrightarrow> \<forall>k. k < 0 \<or> cap \<le> k \<longrightarrow> m' k = m k"
    and "\<not> null \<Longrightarrow> r \<noteq> - 1 \<Longrightarrow> holds_text m' cap (spec_der_to_text (bytes_of (data a)))"
proof -
  let ?ot = "\<lparr>o_mem = m, o_null = null, o_pos = 0, o_len = cap, o_n = 0\<rparr>"
  let ?t = "spec_der_to_text (bytes_of (data a))"
  have i0: "buf_inv cap m [] ?ot" using c0 st by (rule start_inv)
  obtain ok ot' where l: "obj2txt_loop sv (bytes_of (data a)) True 0 ?ot = (ok, ot')"
    by (cases "obj2txt_loop sv (bytes_of (data a)) True 0 ?ot") auto
  from obj2txt_loop_text [OF l i0 c1] obtain t' where
    i: "buf_inv cap m t' ot'" "o_null ot' = null" "ok \<Longrightarrow> buf_inv cap m ?t ot'"
    by auto
  have res: "(r, m') = (if olength a > 586 then (- 1, m)
                        else if ok then (o_n ot', o_mem ot') else (- 1, o_mem ot'))"
    using d unfolding obj2txt_dotted_def l by (auto split: if_splits)
  show "r = - 1 \<or> r = int (length ?t)"
    using res i(3) by (auto simp: buf_inv_def split: if_splits)
  show "\<exists>k. 0 \<le> k \<and> k < cap \<and> m' k = NUL" if "\<not> null" "1 \<le> cap"
  proof (cases "olength a > 586")
    case True
    with res st that show ?thesis by (intro exI [of _ 0]) auto
  next
    case False
    with res have "m' = o_mem ot'" by (auto split: if_splits)
    with buf_inv_holds(3) [OF i(1)] i(2) that show ?thesis by simp
  qed
  show "\<forall>k. k < 0 \<or> cap \<le> k \<longrightarrow> m' k = m k" if "\<not> null"
  proof (cases "olength a > 586")
    case True
    with res show ?thesis by simp
  next
    case False
    with res have "m' = o_mem ot'" by (auto split: if_splits)
    with buf_inv_holds(4) [OF i(1)] i(2) that show ?thesis by simp
  qed
  show "holds_text m' cap ?t" if "\<not> null" "r \<noteq> - 1"
  proof -
    from res that have "ok" "m' = o_mem ot'" by (auto split: if_splits)
    with buf_inv_holds(1) [OF i(3)] i(2) that show ?thesis by simp
  qed
qed

lemma obj2txt_dotted_ok:
  assumes "0 \<le> cap" and "cap < 2 ^ 64" and "null \<or> (1 \<le> cap \<longrightarrow> m 0 = NUL)"
    and "0 \<le> cap2" and "cap2 < 2 ^ 64" and "null2 \<or> (1 \<le> cap2 \<longrightarrow> m2 0 = NUL)"
  shows "fst (obj2txt_dotted sv m null cap a) = fst (obj2txt_dotted sv m2 null2 cap2 a)"
proof -
  let ?p = "bytes_of (data a)"
  let ?ot = "\<lparr>o_mem = m, o_null = null, o_pos = 0, o_len = cap, o_n = 0\<rparr>"
  let ?ot2 = "\<lparr>o_mem = m2, o_null = null2, o_pos = 0, o_len = cap2, o_n = 0\<rparr>"
  obtain r m' where d: "obj2txt_dotted sv m null cap a = (r, m')" by (metis prod.collapse)
  obtain r2 m2' where d2: "obj2txt_dotted sv m2 null2 cap2 a = (r2, m2')" by (metis prod.collapse)
  have ok: "fst (obj2txt_loop sv ?p True 0 ?ot) = fst (obj2txt_loop sv ?p True 0 ?ot2)"
    by (rule obj2txt_loop_ok)
  have "r = - 1 \<longleftrightarrow> r2 = - 1"
  proof -
    have a: "r = - 1 \<longleftrightarrow> olength a > 586 \<or> \<not> fst (obj2txt_loop sv ?p True 0 ?ot)"
    proof -
      obtain k ot' where l: "obj2txt_loop sv ?p True 0 ?ot = (k, ot')" by (metis prod.collapse)
      from obj2txt_loop_text [OF l start_inv [of cap null m, OF assms(1,3)] assms(2)]
      have "k \<longrightarrow> 0 \<le> o_n ot'" by (auto simp: buf_inv_def)
      with d [unfolded obj2txt_dotted_def l] l show ?thesis by (auto split: if_splits)
    qed
    have b: "r2 = - 1 \<longleftrightarrow> olength a > 586 \<or> \<not> fst (obj2txt_loop sv ?p True 0 ?ot2)"
    proof -
      obtain k ot' where l: "obj2txt_loop sv ?p True 0 ?ot2 = (k, ot')" by (metis prod.collapse)
      from obj2txt_loop_text [OF l start_inv [of cap2 null2 m2, OF assms(4,6)] assms(5)]
      have "k \<longrightarrow> 0 \<le> o_n ot'" by (auto simp: buf_inv_def)
      with d2 [unfolded obj2txt_dotted_def l] l show ?thesis by (auto split: if_splits)
    qed
    show ?thesis using a b ok by simp
  qed
  with obj2txt_dotted_text(1) [OF d assms(1,2,3)] obj2txt_dotted_text(1) [OF d2 assms(4,5,6)] d d2
  show ?thesis by auto
qed

lemma start_mem_NUL: "1 \<le> cap \<Longrightarrow> start_mem (Some m) cap 0 = NUL"
  by (simp add: start_mem_def)

lemma start_mem_outside: "k < 0 \<or> cap \<le> k \<Longrightarrow> start_mem (Some m) cap k = m k"
  by (auto simp: start_mem_def)

lemma strlcpy_holds:
  assumes "0 \<le> cap"
  shows "holds_text (OPENSSL_strlcpy m 0 str (nat cap)) cap str"
    and "k < 0 \<or> cap \<le> k \<Longrightarrow> OPENSSL_strlcpy m 0 str (nat cap) k = m k"
    and "1 \<le> cap \<Longrightarrow> \<exists>k. 0 \<le> k \<and> k < cap \<and> OPENSSL_strlcpy m 0 str (nat cap) k = NUL"
proof -
  have mn: "1 \<le> cap \<Longrightarrow> int (min (length str) (nat cap - 1)) = min (int (length str)) (cap - 1)"
    by (auto simp: min_def)
  show "holds_text (OPENSSL_strlcpy m 0 str (nat cap)) cap str"
    using assms mn by (auto simp: holds_text_def strlcpy_mem)
  show "OPENSSL_strlcpy m 0 str (nat cap) k = m k" if "k < 0 \<or> cap \<le> k"
    using that assms mn by (auto simp: strlcpy_mem)
  show "\<exists>k. 0 \<le> k \<and> k < cap \<and> OPENSSL_strlcpy m 0 str (nat cap) k = NUL" if "1 \<le> cap"
    using that mn by (intro exI [of _ "min (int (length str)) (cap - 1)"]) (auto simp: strlcpy_mem)
qed


lemma size_t_cap: "0 \<le> cap \<Longrightarrow> cap < 2 ^ 31 \<Longrightarrow> size_t cap = nat cap"
  by (rule size_t_id) auto

lemma full_text_dotted:
  "data a \<noteq> None \<Longrightarrow> fst (obj2txt_name e sv s a no_name) = None
     \<Longrightarrow> full_text e sv s (Some a) no_name = spec_der_to_text (bytes_of (data a))"
  by (auto simp: full_text_def)

lemma OBJ_obj2txt_value:
  assumes "0 \<le> cap" and "cap < 2 ^ 31" and "0 \<le> cap2" and "cap2 < 2 ^ 31"
  shows "fst (OBJ_obj2txt e sv s buf cap a no_name) = fst (OBJ_obj2txt e sv s buf2 cap2 a no_name)"
proof (cases "a = None \<or> (\<exists>ob. a = Some ob \<and> data ob = None)")
  case True
  then show ?thesis by (auto simp: OBJ_obj2txt_def)
next
  case False
  then obtain ob where ob: "a = Some ob" "data ob \<noteq> None" by auto
  show ?thesis
  proof (cases "fst (obj2txt_name e sv s ob no_name)")
    case None
    have st: "buf = None \<or> (1 \<le> cap \<longrightarrow> start_mem buf cap 0 = NUL)" for buf cap
      by (cases buf) (auto simp: start_mem_def)
    have c: "cap < 2 ^ 64" "cap2 < 2 ^ 64" using assms by auto
    show ?thesis
      unfolding ob OBJ_obj2txt_dotted_path [OF ob(2) None] fst_conv
      by (rule obj2txt_dotted_ok [of cap "buf = None" "start_mem buf cap" cap2 "buf2 = None"
            "start_mem buf2 cap2", OF assms(1) c(1) st assms(3) c(2) st])
  next
    case (Some str)
    then obtain s1 where "obj2txt_name e sv s ob no_name = (Some str, s1)"
      by (cases "obj2txt_name e sv s ob no_name") auto
    with ob show ?thesis by (auto simp: OBJ_obj2txt_def Let_def)
  qed
qed

lemma spec_subids_ne: "d \<noteq> [] \<Longrightarrow> last d AND 0x80 = 0 \<Longrightarrow> spec_subids d acc \<noteq> []"
proof (induction d arbitrary: acc)
  case Nil
  then show ?case by simp
next
  case (Cons c d)
  show ?case
  proof (cases "c AND 0x80 = 0")
    case True
    then show ?thesis by (simp add: Let_def)
  next
    case False
    with Cons.prems have "d \<noteq> []" "last d AND 0x80 = 0" by (auto split: if_splits)
    from Cons.IH [OF this] False show ?thesis by (simp add: Let_def)
  qed
qed

lemma digit_simps:
  "digit 0 = CHR ''0''" "digit (Suc 0) = CHR ''1''" "digit 2 = CHR ''2''" "digit 3 = CHR ''3''"
  "digit 4 = CHR ''4''" "digit 5 = CHR ''5''" "digit 6 = CHR ''6''" "digit 7 = CHR ''7''"
  "digit 8 = CHR ''8''" "digit 9 = CHR ''9''"
  unfolding digit_def by code_simp+

lemma char_of_digits:
  "char_of (48 :: int) = CHR ''0''" "char_of (49 :: int) = CHR ''1''" "char_of (50 :: int) = CHR ''2''"
  by code_simp+

lemma ulong_shift: "drop_bit 7 ULONG_MAX = 0x1FFFFFFFFFFFFFF"
  unfolding ULONG_MAX_def by code_simp

lemma bn_ok_sv0 [simp]: "bn_ok sv0"
  by (simp add: sv0_def)

lemmas txt_defs = OBJ_obj2txt_def obj2txt_name_def obj2txt_dotted_def start_mem_def olength_def
  obj2txt_loop.simps first_arc_def emit_arc_def put_char_def advance_def size_t_def
  BN_bn2dec_def ulong_shift Let_def dec.simps digit_simps char_of_digits bytes_of_def probe_def

lemmas spec_defs = spec_der_to_text_def spec_split_first_def spec_dotted_def Let_def dec.simps digit_simps

text \<open>
  C5. Let \<^verbatim>\<open>OBJ_obj2txt\<close> be called with a buffer \<open>m\<close> of capacity \<open>cap\<close> between 0 and
  \<^verbatim>\<open>INT_MAX\<close>, and return \<open>r\<close> with the memory \<open>m'\<close>. Whatever the object and whatever \<open>r\<close>:
  when the capacity is at least 1 there is a terminator within the capacity, and nothing
  outside the capacity is written. When \<open>r\<close> is not the error value -1, \<open>r\<close> is the length
  of the full output text (the name found for the object, or else the dotted form of its
  content octets), also when the capacity is smaller, and the buffer holds that text cut to
  \<open>cap - 1\<close> characters and followed by the terminator. The return value is the same for
  every other buffer and capacity, and for no buffer at all.
\<close>

theorem obj2txt_terminated_full_length:
  assumes run: "OBJ_obj2txt e sv s (Some m) cap a no_name = (r, m', s')"
    and c0: "0 \<le> cap" and c1: "cap < 2 ^ 31"
  shows "(1 \<le> cap \<longrightarrow> (\<exists>k. 0 \<le> k \<and> k < cap \<and> m' k = NUL))
       \<and> (\<forall>k. k < 0 \<or> cap \<le> k \<longrightarrow> m' k = m k)
       \<and> (r \<noteq> - 1 \<longrightarrow> r = int (length (full_text e sv s a no_name))
                       \<and> holds_text m' cap (full_text e sv s a no_name))
       \<and> (\<forall>buf2 cap2. 0 \<le> cap2 \<and> cap2 < 2 ^ 31 \<longrightarrow>
             fst (OBJ_obj2txt e sv s buf2 cap2 a no_name) = r)"
proof -
  let ?m1 = "start_mem (Some m) cap"
  have val: "\<forall>buf2 cap2. 0 \<le> cap2 \<and> cap2 < 2 ^ 31 \<longrightarrow>
             fst (OBJ_obj2txt e sv s buf2 cap2 a no_name) = r"
    using OBJ_obj2txt_value [OF _ _ c0 c1, of _ e sv s _ a no_name "Some m"] run by simp
  have c64: "cap < 2 ^ 64" using c1 by auto
  have rest: "(1 \<le> cap \<longrightarrow> (\<exists>k. 0 \<le> k \<and> k < cap \<and> m' k = NUL))
       \<and> (\<forall>k. k < 0 \<or> cap \<le> k \<longrightarrow> m' k = m k)
       \<and> (r \<noteq> - 1 \<longrightarrow> r = int (length (full_text e sv s a no_name))
                       \<and> holds_text m' cap (full_text e sv s a no_name))"
  proof (cases "a = None \<or> (\<exists>ob. a = Some ob \<and> data ob = None)")
    case True
    then have "r = 0" "m' = ?m1" "full_text e sv s a no_name = []"
      using run by (auto simp: OBJ_obj2txt_def full_text_def)
    then show ?thesis
      using start_mem_NUL [of cap m] start_mem_outside [of _ cap m]
      by (auto simp: holds_text_def intro!: exI [of _ 0])
  next
    case False
    then obtain ob where ob: "a = Some ob" "data ob \<noteq> None" by auto
    show ?thesis
    proof (cases "fst (obj2txt_name e sv s ob no_name)")
      case None
      let ?d = "obj2txt_dotted sv ?m1 False cap ob"
      from run have r: "?d = (r, m')"
        unfolding ob OBJ_obj2txt_dotted_path [OF ob(2) None] by (simp add: prod_eq_iff)
      have st: "False \<or> (1 \<le> cap \<longrightarrow> ?m1 0 = NUL)" using start_mem_NUL [of cap m] by simp
      note d = obj2txt_dotted_text [OF r c0 c64 st]
      have "\<forall>k. k < 0 \<or> cap \<le> k \<longrightarrow> m' k = m k"
        using d(3) start_mem_outside [of _ cap m] by simp
      moreover have "1 \<le> cap \<longrightarrow> (\<exists>k. 0 \<le> k \<and> k < cap \<and> m' k = NUL)"
        using d(2) by simp
      moreover have "r \<noteq> - 1 \<longrightarrow> r = int (length (full_text e sv s a no_name))
                       \<and> holds_text m' cap (full_text e sv s a no_name)"
        using d(1,4) by (auto simp: ob full_text_dotted [OF ob(2) None])
      ultimately show ?thesis by blast
    next
      case (Some str)
      then obtain s1 where n: "obj2txt_name e sv s ob no_name = (Some str, s1)"
        by (cases "obj2txt_name e sv s ob no_name") auto
      with run ob have r: "r = int (length str)" "m' = OPENSSL_strlcpy ?m1 0 str (nat cap)"
        by (auto simp: OBJ_obj2txt_def Let_def size_t_cap [OF c0 c1])
      have ft: "full_text e sv s a no_name = str" using ob n by (auto simp: full_text_def)
      show ?thesis
        unfolding ft r
        using strlcpy_holds [OF c0, where m = ?m1 and str = str] start_mem_outside [of _ cap m]
        by auto
    qed
  qed
  from rest val show ?thesis by blast
qed

theorem obj2txt_terminated_full_length_witness:
  "fst (OBJ_obj2txt env0 sv0 st0 (Some (\<lambda>k. CHR ''#'')) 4 (Some (probe\<lparr>data := Some [0x55, 4, 3]\<rparr>)) True) = 7
   \<and> full_text env0 sv0 st0 (Some (probe\<lparr>data := Some [0x55, 4, 3]\<rparr>)) True = ''2.5.4.3''
   \<and> holds_text (fst (snd (OBJ_obj2txt env0 sv0 st0 (Some (\<lambda>k. CHR ''#'')) 4
          (Some (probe\<lparr>data := Some [0x55, 4, 3]\<rparr>)) True))) 4 ''2.5.4.3''
   \<and> fst (snd (OBJ_obj2txt env0 sv0 st0 (Some (\<lambda>k. CHR ''#'')) 4
          (Some (probe\<lparr>data := Some [0x55, 4, 3]\<rparr>)) True)) 3 = NUL
   \<and> fst (snd (OBJ_obj2txt env0 sv0 st0 (Some (\<lambda>k. CHR ''#'')) 4
          (Some (probe\<lparr>data := Some [0x55, 4, 3]\<rparr>)) True)) 4 = CHR ''#''
   \<and> fst (OBJ_obj2txt env0 sv0 st0 None 0 (Some (probe\<lparr>data := Some [0x55, 4, 3]\<rparr>)) True) = 7"
proof -
  let ?a = "Some (probe\<lparr>data := Some [0x55, 4, 3]\<rparr>)"
  let ?run = "OBJ_obj2txt env0 sv0 st0 (Some (\<lambda>k. CHR ''#'')) 4 ?a True"
  have e: "fst ?run = 7"
    by (simp add: txt_defs)
  have t: "full_text env0 sv0 st0 ?a True = ''2.5.4.3''"
    by (simp add: full_text_def obj2txt_name_def probe_def bytes_of_def spec_defs)
  have n: "min (int (length ''2.5.4.3'')) (4 - 1) = 3"
    by simp
  have run: "?run = (fst ?run, fst (snd ?run), snd (snd ?run))"
    by simp
  have c0: "(0 :: int) \<le> 4" and c1: "(4 :: int) < 2 ^ 31" and c2: "(0 :: int) \<le> 0 \<and> (0 :: int) < 2 ^ 31"
    and acc: "fst ?run \<noteq> - 1" and out: "(4 :: int) < 0 \<or> (4 :: int) \<le> 4"
    unfolding e by simp_all
  note th = obj2txt_terminated_full_length [OF run c0 c1]
  from th acc have h: "holds_text (fst (snd ?run)) 4 (full_text env0 sv0 st0 ?a True)"
    by blast
  then have z: "fst (snd ?run) 3 = NUL"
    unfolding holds_text_def t n by simp
  from th out have o: "fst (snd ?run) 4 = (\<lambda>k. CHR ''#'') 4"
    by blast
  from th c2 have v: "fst (OBJ_obj2txt env0 sv0 st0 None 0 ?a True) = fst ?run"
    by blast
  from e t h z o v show ?thesis
    by simp
qed

text \<open>
  C2. Let \<^verbatim>\<open>OBJ_obj2txt\<close> print an object in dotted form (\<^verbatim>\<open>no_name\<close> is set, or the object
  resolves to no NID), let its content octets \<open>d\<close> be accepted (the return value \<open>r\<close> is not
  -1) and not empty, and let the buffer have room for the whole text. Let \<open>v0\<close> be the first
  sub-identifier of \<open>d\<close>, decoded as a natural number of any size, and \<open>vs\<close> the others.
  Then the buffer holds, followed by the terminator, the text made of the decimal form of
  \<open>a\<close>, a dot, the decimal form of \<open>b\<close>, and the other arcs each after a dot, where
  \<open>(a, b)\<close> is \<open>(v0 div 40, v0 mod 40)\<close> when \<open>v0 < 80\<close> and \<open>(2, v0 - 80)\<close> otherwise; and the
  return value is the length of that text. No bound on \<open>v0\<close> is assumed: the statement
  covers the sub-identifiers that the code keeps in a \<^verbatim>\<open>BIGNUM\<close>.
\<close>

theorem obj2txt_first_split:
  assumes run: "OBJ_obj2txt e sv s (Some m) cap (Some a) no_name = (r, m', s')"
    and dot: "no_name \<or> fst (OBJ_obj2nid e sv s (Some a)) = NID_undef"
    and d: "data a = Some d" and ne: "d \<noteq> []" and acc: "r \<noteq> - 1"
    and c0: "0 \<le> cap" and room: "r < cap" and c1: "cap < 2 ^ 31"
  shows "\<exists>v0 vs. spec_subids d 0 = v0 # vs
           \<and> spec_split_first v0 = (if v0 < 80 then (v0 div 40, v0 mod 40) else (2, v0 - 80))
           \<and> spec_der_to_text d = dec (fst (spec_split_first v0)) @ ''.'' @ dec (snd (spec_split_first v0)) @ spec_dotted vs
           \<and> r = int (length (spec_der_to_text d))
           \<and> (\<forall>k < length (spec_der_to_text d). m' (int k) = spec_der_to_text d ! k)
           \<and> m' r = NUL"
proof -
  let ?m1 = "start_mem (Some m) cap"
  have dn: "data a \<noteq> None" using d by simp
  have nm: "fst (obj2txt_name e sv s a no_name) = None" using dot by (rule obj2txt_name_None)
  from run have r: "obj2txt_dotted sv ?m1 False cap a = (r, m')"
    unfolding OBJ_obj2txt_dotted_path [OF dn nm] by (simp add: prod_eq_iff)
  have last: "last d AND 0x80 = 0"
    using obj2txt_dotted_rejects [OF d, of sv ?m1 False cap] r acc ne by auto
  from spec_subids_ne [OF ne last] obtain v0 vs where v: "spec_subids d 0 = v0 # vs"
    by (cases "spec_subids d 0") auto
  have tx: "spec_der_to_text d = dec (fst (spec_split_first v0)) @ ''.'' @ dec (snd (spec_split_first v0)) @ spec_dotted vs"
    by (simp add: spec_der_to_text_def v spec_dotted_Cons split: prod.splits)
  have c64: "cap < 2 ^ 64" using c1 by auto
  have st: "False \<or> (1 \<le> cap \<longrightarrow> ?m1 0 = NUL)" using start_mem_NUL [of cap m] by simp
  note dt = obj2txt_dotted_text [OF r c0 c64 st]
  have bd: "bytes_of (data a) = d" using d by (simp add: bytes_of_def)
  have len: "r = int (length (spec_der_to_text d))" using dt(1) acc by (simp add: bd)
  have h: "holds_text m' cap (spec_der_to_text d)" using dt(4) acc by (simp add: bd)
  have mn: "min (int (length (spec_der_to_text d))) (cap - 1) = int (length (spec_der_to_text d))"
    using room len by simp
  have "\<forall>k < length (spec_der_to_text d). m' (int k) = spec_der_to_text d ! k"
  proof (intro allI impI)
    fix k assume "k < length (spec_der_to_text d)"
    with h mn have "m' (int k) = spec_der_to_text d ! nat (int k)"
      unfolding holds_text_def by (metis of_nat_0_le_iff of_nat_less_iff)
    then show "m' (int k) = spec_der_to_text d ! k" by simp
  qed
  moreover have "m' r = NUL"
    using h mn room len c0 unfolding holds_text_def by auto
  ultimately show ?thesis using v tx len by (simp add: spec_split_first_def)
qed

theorem obj2txt_first_split_witness:
  "fst (OBJ_obj2txt env0 sv0 st0 (Some (\<lambda>k. CHR ''#'')) 32
          (Some (probe\<lparr>data := Some [0x82, 0x80, 0x80, 0x80, 0x80, 0x80, 0x80, 0x80, 0x80, 0x00]\<rparr>)) True) = 22
   \<and> spec_subids [0x82, 0x80, 0x80, 0x80, 0x80, 0x80, 0x80, 0x80, 0x80, 0x00] 0 = [2 ^ 64]
   \<and> spec_split_first (2 ^ 64) = (2, 2 ^ 64 - 80)
   \<and> spec_der_to_text [0x82, 0x80, 0x80, 0x80, 0x80, 0x80, 0x80, 0x80, 0x80, 0x00] = ''2.18446744073709551536''
   \<and> map (\<lambda>k. fst (snd (OBJ_obj2txt env0 sv0 st0 (Some (\<lambda>k. CHR ''#'')) 32
          (Some (probe\<lparr>data := Some [0x82, 0x80, 0x80, 0x80, 0x80, 0x80, 0x80, 0x80, 0x80, 0x00]\<rparr>)) True))
              (int k)) [0 ..< 22] = ''2.18446744073709551536''
   \<and> fst (snd (OBJ_obj2txt env0 sv0 st0 (Some (\<lambda>k. CHR ''#'')) 32
          (Some (probe\<lparr>data := Some [0x82, 0x80, 0x80, 0x80, 0x80, 0x80, 0x80, 0x80, 0x80, 0x00]\<rparr>)) True)) 22 = NUL"
proof -
  let ?d = "[0x82, 0x80, 0x80, 0x80, 0x80, 0x80, 0x80, 0x80, 0x80, 0x00] :: byte list"
  let ?run = "OBJ_obj2txt env0 sv0 st0 (Some (\<lambda>k. CHR ''#'')) 32 (Some (probe\<lparr>data := Some ?d\<rparr>)) True"
  have s: "subid_loop sv0 ?d 0 False 0 = Some (0x200000000000000, True, 18446744073709551616, [])"
    by (simp add: ulong_shift)
  have e: "fst ?run = 22"
    by (simp add: txt_defs s del: subid_loop.simps)
  have t: "spec_der_to_text ?d = ''2.18446744073709551536''"
    by (simp add: spec_defs)
  have v: "spec_subids ?d 0 = [2 ^ 64]"
    by simp
  have sp: "spec_split_first (2 ^ 64) = (2, 2 ^ 64 - 80)"
    by (simp add: spec_split_first_def)
  have n: "length ''2.18446744073709551536'' = 22"
    by simp
  have run: "?run = (fst ?run, fst (snd ?run), snd (snd ?run))"
    by simp
  have da: "data (probe\<lparr>data := Some ?d\<rparr>) = Some ?d"
    by simp
  have acc: "fst ?run \<noteq> - 1" and room: "fst ?run < 32"
    unfolding e by simp_all
  have dot: "True \<or> fst (OBJ_obj2nid env0 sv0 st0 (Some (probe\<lparr>data := Some ?d\<rparr>))) = NID_undef"
    by simp
  have ne: "?d \<noteq> []" and c0: "(0 :: int) \<le> 32" and c1: "(32 :: int) < 2 ^ 31"
    by simp_all
  from obj2txt_first_split [OF run dot da ne acc c0 room c1]
  have "(\<forall>k < length (spec_der_to_text ?d). fst (snd ?run) (int k) = spec_der_to_text ?d ! k)
      \<and> fst (snd ?run) (fst ?run) = NUL"
    by blast
  then have ch: "\<forall>k < 22. fst (snd ?run) (int k) = ''2.18446744073709551536'' ! k"
    and z: "fst (snd ?run) 22 = NUL"
    unfolding t n e by (rule conjunct1, rule conjunct2)
  have eqI: "map f [0 ..< 22] = ''2.18446744073709551536''"
    if f: "\<forall>k < 22. f k = ''2.18446744073709551536'' ! k" for f :: "nat \<Rightarrow> char"
  proof (rule nth_equalityI)
    show "length (map f [0 ..< 22]) = length ''2.18446744073709551536''"
      by simp
    show "map f [0 ..< 22] ! i = ''2.18446744073709551536'' ! i" if "i < length (map f [0 ..< 22])" for i
    proof -
      from that have i: "i < 22" by simp
      then have "map f [0 ..< 22] ! i = f i" by (simp del: upt_Suc upt_rec_numeral)
      with i f show ?thesis by metis
    qed
  qed
  have tx: "map (\<lambda>k. fst (snd ?run) (int k)) [0 ..< 22] = ''2.18446744073709551536''"
    using ch by (rule eqI)
  show ?thesis
    by (intro conjI) (fact e v sp t tx z)+
qed

end
